theory Spec2Isabelle
  imports Main
begin

section \<open>pwdgen: the pattern validator and the password interpreter\<close>

text \<open>
  The program reads a pattern (a NUL-terminated C string), validates it with \<open>check\<close> and
  interprets it with \<open>generate\<close>, which calls \<open>randchar\<close> for every character class.
  Two variants of the source exist: \<^verbatim>\<open>src/unnamed/part_000\<close> (with escapes, the one
  embedded under the plain names) and \<^verbatim>\<open>src/pwdgen.c\<close> (without escapes, embedded under
  names ending in \<open>_pwdgen\<close>).

  Bytes are modelled by their code, a \<open>nat\<close> below 256 (the unsigned reading of
  \<^verbatim>\<open>char\<close>; every byte that \<open>check\<close> lets through lies in 0x21..0x7E, where the signed and
  the unsigned reading agree). A pointer into the pattern is the index \<open>i\<close> with
  \<^verbatim>\<open>ipt == ipt_origin + i\<close>. Undefined behaviour of the C program (a read outside the
  buffer, a division by zero, a signed overflow) is a value of type \<open>fault\<close>.
\<close>

datatype fault = OutOfBounds | DivByZero | IntOverflow | NullPointer

text \<open>
  \<open>at s i\<close> is the byte \<^verbatim>\<open>s[i]\<close> of the C string whose characters are \<open>s\<close>: the
  terminating NUL sits at index \<open>length s\<close>. Callers guard every read beyond it.
\<close>

definition at :: "string \<Rightarrow> nat \<Rightarrow> nat" where
  "at s i = (if i < length s then of_char (s ! i) else 0)"

subsection \<open>The validator of \<^verbatim>\<open>src/unnamed/part_000\<close>\<close>

text \<open>
  One iteration of the \<^verbatim>\<open>for\<close> loop of \<open>check\<close> per call; \<open>inn\<close> is the C variable
  \<^verbatim>\<open>in\<close>. The cases follow the \<^verbatim>\<open>switch\<close>: 91 is \<^verbatim>\<open>[\<close>, 93 is \<^verbatim>\<open>]\<close>, 40 and 41 are the
  parentheses, 45 is \<^verbatim>\<open>-\<close>, 92 is the backslash, 33 is \<^verbatim>\<open>!\<close> and 126 is \<^verbatim>\<open>~\<close>.
  \<^verbatim>\<open>ipt[-1]\<close> at index 0 is a read before the buffer.
\<close>

function check_loop :: "string \<Rightarrow> nat \<Rightarrow> int \<Rightarrow> int \<Rightarrow> fault + int" where
  "check_loop s i inn level =
     (if at s i = 0 then Inr (if inn = 0 \<and> level = 0 then 1 else 0)
      else if at s i < 33 \<or> at s i > 126 then Inr 0
      else if at s i = 91 then
        (if inn \<noteq> 0 then Inr 0 else check_loop s (i + 1) 1 level)
      else if at s i = 93 then
        (if inn = 0 then Inr 0
         else if i = 0 then Inl OutOfBounds
         else if at s (i - 1) = 91 \<and> i \<ge> 2 \<and> at s (i - 2) \<noteq> 92 then Inr 0
         else check_loop s (i + 1) 0 level)
      else if at s i = 40 then
        (if inn \<noteq> 0 then Inr 0 else check_loop s (i + 1) inn (level + 1))
      else if at s i = 41 then
        (if inn \<noteq> 0 \<or> level \<le> 0 then Inr 0 else check_loop s (i + 1) inn (level - 1))
      else if at s i = 45 then
        (if i = 0 then Inl OutOfBounds
         else if inn \<noteq> 0 \<and> (at s (i - 1) = 91 \<and> i \<ge> 2 \<and> at s (i - 2) \<noteq> 92
                          \<or> at s (i + 1) = 93) then Inr 0
         else if (if at s (i + 1) = 92 then at s (i + 2) else at s (i + 1)) < at s (i - 1)
           then Inr 0
         else check_loop s (i + 1) inn level)
      else if at s i = 92 then
        (if at s (i + 1) < 33 \<or> at s (i + 1) > 126 then Inr 0
         else check_loop s (i + 2) inn level)
      else check_loop s (i + 1) inn level)"
  by pat_completeness auto
termination
  by (relation "measure (\<lambda>(s, i, inn, level). length s - i)") (auto simp: at_def split: if_splits)

declare check_loop.simps [simp del]

definition check :: "string \<Rightarrow> fault + int" where
  "check s = check_loop s 0 0 0"

subsection \<open>The validator of \<^verbatim>\<open>src/pwdgen.c\<close>\<close>

function check_loop_pwdgen :: "string \<Rightarrow> nat \<Rightarrow> int \<Rightarrow> int \<Rightarrow> fault + int" where
  "check_loop_pwdgen s i inn level =
     (if at s i = 0 then Inr (if inn = 0 \<and> level = 0 then 1 else 0)
      else if at s i < 33 \<or> at s i > 126 then Inr 0
      else if at s i = 91 then
        (if inn \<noteq> 0 then Inr 0 else check_loop_pwdgen s (i + 1) 1 level)
      else if at s i = 93 then
        (if inn \<noteq> 1 then Inr 0
         else if i = 0 then Inl OutOfBounds
         else if at s (i - 1) = 93 then Inr 0
         else check_loop_pwdgen s (i + 1) 0 level)
      else if at s i = 40 then
        (if inn = 1 then Inr 0 else check_loop_pwdgen s (i + 1) inn (level + 1))
      else if at s i = 41 then
        (if inn \<noteq> 0 \<or> level \<le> 0 then Inr 0
         else check_loop_pwdgen s (i + 1) inn (level - 1))
      else if at s i = 45 then
        (if inn = 0 then check_loop_pwdgen s (i + 1) inn level
         else if i = 0 then Inl OutOfBounds
         else if at s (i - 1) = 91 \<or> at s (i + 1) = 93 \<or> at s (i + 1) < at s (i - 1)
           then Inr 0
         else check_loop_pwdgen s (i + 1) inn level)
      else check_loop_pwdgen s (i + 1) inn level)"
  by pat_completeness auto
termination
  by (relation "measure (\<lambda>(s, i, inn, level). length s - i)") (auto simp: at_def split: if_splits)

declare check_loop_pwdgen.simps [simp del]

definition check_pwdgen :: "string \<Rightarrow> fault + int" where
  "check_pwdgen s = check_loop_pwdgen s 0 0 0"

subsection \<open>Library functions: \<^verbatim>\<open>strtol\<close>, \<^verbatim>\<open>rand\<close>, \<^verbatim>\<open>putchar\<close>\<close>

text \<open>
  \<open>strtol s p\<close> is the C library's \<^verbatim>\<open>strtol(ipt_origin + p, &end, 10)\<close> on a string whose
  byte at \<open>p\<close> is a digit (both call sites test that first): the value of the run of decimal
  digits, saturated at \<^verbatim>\<open>LONG_MAX\<close> (64-bit \<^verbatim>\<open>long\<close>), and the index just past the run.
  \<open>to_int\<close> is the conversion of that \<^verbatim>\<open>long\<close> to the 32-bit \<^verbatim>\<open>int\<close> it is assigned to
  (reduction modulo \<open>2 ^ 32\<close> into the signed range, as gcc defines it).
\<close>

definition digit_run :: "string \<Rightarrow> nat \<Rightarrow> nat list" where
  "digit_run s p = takeWhile (\<lambda>d. 48 \<le> d \<and> d \<le> 57) (map of_char (drop p s))"

definition strtol :: "string \<Rightarrow> nat \<Rightarrow> nat \<times> nat" where
  "strtol s p =
     (min (foldl (\<lambda>a d. 10 * a + (d - 48)) 0 (digit_run s p)) (2 ^ 63 - 1),
      p + length (digit_run s p))"

definition to_int :: "nat \<Rightarrow> int" where
  "to_int v = (if v mod 2 ^ 32 < 2 ^ 31 then int (v mod 2 ^ 32) else int (v mod 2 ^ 32) - 2 ^ 32)"

text \<open>
  The state of a run: the bytes written to standard output so far, and the number of calls
  of \<^verbatim>\<open>rand()\<close> so far. The random source is a function \<open>rnd\<close>: the \<open>k\<close>-th call of
  \<^verbatim>\<open>rand()\<close> returns \<open>rnd k\<close>, a non-negative number.
\<close>

record st =
  out :: "nat list"
  drawn :: nat

definition putchar :: "nat \<Rightarrow> st \<Rightarrow> st" where
  "putchar c x = x\<lparr>out := out x @ [c]\<rparr>"

subsection \<open>\<open>strfind\<close> and \<open>randchar\<close> of \<^verbatim>\<open>src/unnamed/part_000\<close>\<close>

text \<open>
  \<open>strfind\<close> looks at \<^verbatim>\<open>lst[0] .. lst[len]\<close>, one entry more than \<open>len\<close>; \<open>k\<close> is
  \<^verbatim>\<open>lst - lst_origin\<close>. The array \<^verbatim>\<open>chars\<close> is a list of 256 bytes.
\<close>

function strfind_loop :: "nat \<Rightarrow> nat list \<Rightarrow> nat \<Rightarrow> nat \<Rightarrow> fault + int" where
  "strfind_loop tar lst len k =
     (if k \<le> len then
        (if k \<ge> length lst then Inl OutOfBounds
         else if lst ! k \<noteq> tar then strfind_loop tar lst len (k + 1)
         else Inr 1)
      else Inr 0)"
  by pat_completeness auto
termination
  by (relation "measure (\<lambda>(tar, lst, len, k). Suc len - k)") auto

declare strfind_loop.simps [simp del]

definition strfind :: "nat \<Rightarrow> nat list \<Rightarrow> nat \<Rightarrow> fault + int" where
  "strfind tar lst len = strfind_loop tar lst len 0"

text \<open>
  The inner loop of \<open>randchar\<close>, \<^verbatim>\<open>for (c = ipt[-1] + 1; c < end; ++c)\<close>. Inside the loop
  \<open>c < end \<le> 255\<close>, so the conversion of \<open>c\<close> to \<^verbatim>\<open>char\<close> keeps its value.
\<close>

function range_loop :: "nat \<Rightarrow> nat \<Rightarrow> nat list \<Rightarrow> nat \<Rightarrow> fault + nat list \<times> nat" where
  "range_loop c e chars len =
     (if c < e then
        (case strfind c chars len of
           Inl f \<Rightarrow> Inl f
         | Inr found \<Rightarrow>
             if found = 0 then
               (if len < length chars then range_loop (c + 1) e (chars[len := c]) (len + 1)
                else Inl OutOfBounds)
             else range_loop (c + 1) e chars len)
      else Inr (chars, len))"
  by pat_completeness auto
termination
  by (relation "measure (\<lambda>(c, e, chars, len). e - c)") auto

declare range_loop.simps [simp del]

text \<open>
  The outer loop of \<open>randchar\<close>, \<^verbatim>\<open>for (; *ipt != ']'; ++ipt)\<close>, from index \<open>i\<close>; it returns
  the array, \<^verbatim>\<open>len\<close> and the index of the closing bracket.
\<close>

function scan_class :: "string \<Rightarrow> nat \<Rightarrow> nat list \<Rightarrow> nat \<Rightarrow> fault + nat list \<times> nat \<times> nat" where
  "scan_class s i chars len =
     (if i > length s then Inl OutOfBounds
      else if at s i = 93 then Inr (chars, len, i)
      else if at s i = 45 then
        (if i = 0 then Inl OutOfBounds
         else
           (case range_loop (at s (i - 1) + 1)
                    (if at s (i + 1) = 92 then at s (i + 2) else at s (i + 1)) chars len of
              Inl f \<Rightarrow> Inl f
            | Inr (chars', len') \<Rightarrow> scan_class s (i + 1) chars' len'))
      else
        (let j = (if at s i = 92 then i + 1 else i) in
         case strfind (at s j) chars len of
           Inl f \<Rightarrow> Inl f
         | Inr found \<Rightarrow>
             if found = 0 then
               (if len < length chars then scan_class s (j + 1) (chars[len := at s j]) (len + 1)
                else Inl OutOfBounds)
             else scan_class s (j + 1) chars len))"
  by pat_completeness auto
termination
  by (relation "measure (\<lambda>(s, i, chars, len). Suc (length s) - i)") auto

declare scan_class.simps [simp del]

text \<open>
  \<^verbatim>\<open>while (c--) putchar(chars[rand() % len])\<close>. A negative \<open>c\<close> never reaches 0 without a
  signed overflow; the bytes written before the overflow are not modelled.
\<close>

fun draw_n :: "(nat \<Rightarrow> nat) \<Rightarrow> nat list \<Rightarrow> nat \<Rightarrow> nat \<Rightarrow> st \<Rightarrow> fault + st" where
  "draw_n rnd chars len 0 x = Inr x"
| "draw_n rnd chars len (Suc n) x =
     (if len = 0 then Inl DivByZero
      else draw_n rnd chars len n
             (putchar (chars ! (rnd (drawn x) mod len)) (x\<lparr>drawn := drawn x + 1\<rparr>)))"

definition draw :: "(nat \<Rightarrow> nat) \<Rightarrow> nat list \<Rightarrow> nat \<Rightarrow> int \<Rightarrow> st \<Rightarrow> fault + st" where
  "draw rnd chars len c x =
     (if c < 0 then (if len = 0 then Inl DivByZero else Inl IntOverflow)
      else draw_n rnd chars len (nat c) x)"

text \<open>
  \<open>randchar rnd s i x\<close>: \<open>i\<close> is the index just after the opening bracket. The result is the
  returned \<^verbatim>\<open>int\<close> (\<^verbatim>\<open>ipt - ipt_origin - 1\<close>) and the new state.
\<close>

definition randchar :: "(nat \<Rightarrow> nat) \<Rightarrow> string \<Rightarrow> nat \<Rightarrow> st \<Rightarrow> fault + int \<times> st" where
  "randchar rnd s i x =
     (case scan_class s i (replicate 256 0) 0 of
        Inl f \<Rightarrow> Inl f
      | Inr (chars, len, j) \<Rightarrow>
          (let (c, e) =
                 (if at s (j + 1) = 42 \<and> at s (j + 2) > 48 \<and> at s (j + 2) \<le> 57
                  then (to_int (fst (strtol s (j + 2))), snd (strtol s (j + 2)))
                  else (1, j + 1))
           in case draw rnd chars len c x of
                Inl f \<Rightarrow> Inl f
              | Inr x' \<Rightarrow> Inr (int e - int i - 1, x')))"

subsection \<open>\<open>generate\<close> of \<^verbatim>\<open>src/unnamed/part_000\<close>\<close>

text \<open>
  One iteration of the \<^verbatim>\<open>for\<close> loop of \<open>generate\<close> per unit of fuel; \<open>None\<close> is "out of
  fuel". \<open>origin\<close> is \<^verbatim>\<open>ipt_origin\<close>, and \<open>ipt_exit\<close> is \<open>None\<close> while the pointer is null.
  The recursive call for a group starts a fresh frame (\<open>t = 0\<close>, \<open>time = 0\<close>). In
  \<^verbatim>\<open>ipt += randchar(++ipt)\<close> the sum is taken with the incremented pointer (as gcc compiles
  it, and as the returned "length processed - 1" is meant).
\<close>

fun gen_loop ::
  "nat \<Rightarrow> (nat \<Rightarrow> nat) \<Rightarrow> string \<Rightarrow> nat \<Rightarrow> nat \<Rightarrow> int \<Rightarrow> int \<Rightarrow> nat option \<Rightarrow> st
     \<Rightarrow> (fault + int \<times> st) option" where
  "gen_loop 0 rnd s origin i t time ipt_exit x = None"
| "gen_loop (Suc fuel) rnd s origin i t time ipt_exit x =
     (if i > length s then Some (Inl OutOfBounds)
      else if at s i = 0 then Some (Inr (int i - int origin, x))
      else if at s i = 40 then
        (case gen_loop fuel rnd s (i + 1) (i + 1) 0 0 None x of
           None \<Rightarrow> None
         | Some (Inl f) \<Rightarrow> Some (Inl f)
         | Some (Inr (r, x')) \<Rightarrow>
             if int (i + 1) + r + 1 < 0 then Some (Inl OutOfBounds)
             else gen_loop fuel rnd s origin (nat (int (i + 1) + r + 1)) t time ipt_exit x')
      else if at s i = 41 then
        (if time = 0 then
           (if at s (i + 1) = 42 \<and> at s (i + 2) > 48 \<and> at s (i + 2) \<le> 57 then
              (if t + 1 < to_int (fst (strtol s (i + 2)))
               then gen_loop fuel rnd s origin origin (t + 1) (to_int (fst (strtol s (i + 2))))
                      (Some (snd (strtol s (i + 2)))) x
               else Some (Inr (int (snd (strtol s (i + 2))) - int origin - 1, x)))
            else Some (Inr (int (i + 1) - int origin - 1, x)))
         else if t + 1 < time then gen_loop fuel rnd s origin origin (t + 1) time ipt_exit x
         else
           (case ipt_exit of
              None \<Rightarrow> Some (Inl NullPointer)
            | Some e \<Rightarrow> Some (Inr (int e - int origin - 1, x))))
      else if at s i = 91 then
        (case randchar rnd s (i + 1) x of
           Inl f \<Rightarrow> Some (Inl f)
         | Inr (r, x') \<Rightarrow>
             if int (i + 1) + r + 1 < 0 then Some (Inl OutOfBounds)
             else gen_loop fuel rnd s origin (nat (int (i + 1) + r + 1)) t time ipt_exit x')
      else if at s i = 92 then
        gen_loop fuel rnd s origin (i + 2) t time ipt_exit (putchar (at s (i + 1)) x)
      else gen_loop fuel rnd s origin (i + 1) t time ipt_exit (putchar (at s i) x))"

definition generate ::
  "nat \<Rightarrow> (nat \<Rightarrow> nat) \<Rightarrow> string \<Rightarrow> nat \<Rightarrow> st \<Rightarrow> (fault + int \<times> st) option" where
  "generate fuel rnd s i x = gen_loop fuel rnd s i i 0 0 None x"

subsection \<open>\<open>main\<close> of \<^verbatim>\<open>src/unnamed/part_000\<close>\<close>

text \<open>
  The results of the \<^verbatim>\<open>getopt\<close> loop, in the order of the command line: \<^verbatim>\<open>-p\<close> with its
  argument, \<^verbatim>\<open>-t\<close> with the \<^verbatim>\<open>int\<close> that \<^verbatim>\<open>strtol\<close> makes of its argument, or anything
  else. The loop keeps \<^verbatim>\<open>flags\<close>, \<^verbatim>\<open>times\<close> and \<^verbatim>\<open>ipt\<close> (\<open>None\<close> while it is not set).
\<close>

datatype opt = OptP string | OptT int | OptOther

fun opt_step :: "int \<times> int \<times> string option \<Rightarrow> opt \<Rightarrow> int \<times> int \<times> string option" where
  "opt_step (flags, times', ipt) (OptP a) = (or flags 1, times', Some a)"
| "opt_step (flags, times', ipt) (OptT n) = (or flags 2, n, ipt)"
| "opt_step (flags, times', ipt) OptOther = (flags, times', ipt)"

definition printf :: "string \<Rightarrow> st \<Rightarrow> st" where
  "printf msg x = x\<lparr>out := out x @ map of_char msg\<rparr>"

text \<open>
  \<^verbatim>\<open>while (times--) { generate(ipt); putchar('\n'); }\<close>; a negative \<^verbatim>\<open>times\<close> ends in a
  signed overflow, and the passwords written before it are not modelled.
\<close>

fun main_loop ::
  "nat \<Rightarrow> (nat \<Rightarrow> nat) \<Rightarrow> string \<Rightarrow> nat \<Rightarrow> st \<Rightarrow> (fault + int \<times> st) option" where
  "main_loop fuel rnd p 0 x = Some (Inr (0, x))"
| "main_loop fuel rnd p (Suc n) x =
     (case generate fuel rnd p 0 x of
        None \<Rightarrow> None
      | Some (Inl f) \<Rightarrow> Some (Inl f)
      | Some (Inr (r, x')) \<Rightarrow> main_loop fuel rnd p n (putchar 10 x'))"

text \<open>
  \<open>main fuel rnd urandom opts x\<close> returns the value \<^verbatim>\<open>main\<close> returns (or the argument of
  \<^verbatim>\<open>exit\<close>) and the final state. \<open>urandom\<close> says whether \<^verbatim>\<open>init_random\<close> can open
  \<^verbatim>\<open>/dev/urandom\<close>; \<open>rnd\<close> is the sequence that \<^verbatim>\<open>rand()\<close> yields after the seeding.
\<close>

definition main ::
  "nat \<Rightarrow> (nat \<Rightarrow> nat) \<Rightarrow> bool \<Rightarrow> opt list \<Rightarrow> st \<Rightarrow> (fault + int \<times> st) option" where
  "main fuel rnd urandom opts x =
     (case foldl opt_step (0, 0, None) opts of
        (flags, times', ipt) \<Rightarrow>
          if and flags 1 = 0 then
            Some (Inr (- 1, printf (''Need password definition.'' @ [CHR 0x0A]) x))
          else
            (case ipt of
               None \<Rightarrow> Some (Inl NullPointer)
             | Some p \<Rightarrow>
                 (case check p of
                    Inl f \<Rightarrow> Some (Inl f)
                  | Inr v \<Rightarrow>
                      if v = 0 then
                        Some (Inr (- 2, printf (''Password definition error.'' @ [CHR 0x0A]) x))
                      else if urandom then
                        (if and flags 2 = 0 \<or> times' = 0 then main_loop fuel rnd p 1 x
                         else if times' < 0 then Some (Inl IntOverflow)
                         else main_loop fuel rnd p (nat times') x)
                      else Some (Inr (1, x)))))"

subsection \<open>The class scan of \<open>randchar\<close> in \<^verbatim>\<open>src/pwdgen.c\<close>\<close>

text \<open>
  \<open>strfind\<close> is the same function in both files. The inner loop of the older \<open>randchar\<close> is
  \<^verbatim>\<open>for (c = *(ipt - 1) + 1; c <= *(ipt + 1); ++c)\<close>, which includes the end of the range,
  and the \<^verbatim>\<open>++ipt\<close> after it steps over that end; there is no escape.
\<close>

function range_loop_pwdgen :: "nat \<Rightarrow> nat \<Rightarrow> nat list \<Rightarrow> nat \<Rightarrow> fault + nat list \<times> nat" where
  "range_loop_pwdgen c e chars len =
     (if c \<le> e then
        (case strfind c chars len of
           Inl f \<Rightarrow> Inl f
         | Inr found \<Rightarrow>
             if found = 0 then
               (if len < length chars then range_loop_pwdgen (c + 1) e (chars[len := c]) (len + 1)
                else Inl OutOfBounds)
             else range_loop_pwdgen (c + 1) e chars len)
      else Inr (chars, len))"
  by pat_completeness auto
termination
  by (relation "measure (\<lambda>(c, e, chars, len). Suc e - c)") auto

declare range_loop_pwdgen.simps [simp del]

function scan_class_pwdgen ::
  "string \<Rightarrow> nat \<Rightarrow> nat list \<Rightarrow> nat \<Rightarrow> fault + nat list \<times> nat \<times> nat" where
  "scan_class_pwdgen s i chars len =
     (if i > length s then Inl OutOfBounds
      else if at s i = 93 then Inr (chars, len, i)
      else if at s i = 45 then
        (if i = 0 then Inl OutOfBounds
         else
           (case range_loop_pwdgen (at s (i - 1) + 1) (at s (i + 1)) chars len of
              Inl f \<Rightarrow> Inl f
            | Inr (chars', len') \<Rightarrow> scan_class_pwdgen s (i + 2) chars' len'))
      else
        (case strfind (at s i) chars len of
           Inl f \<Rightarrow> Inl f
         | Inr found \<Rightarrow>
             if found = 0 then
               (if len < length chars then scan_class_pwdgen s (i + 1) (chars[len := at s i]) (len + 1)
                else Inl OutOfBounds)
             else scan_class_pwdgen s (i + 1) chars len))"
  by pat_completeness auto
termination
  by (relation "measure (\<lambda>(s, i, chars, len). Suc (length s) - i)") auto

declare scan_class_pwdgen.simps [simp del]

subsection \<open>Notions used to state the properties\<close>

text \<open>
  The invariant of the array \<^verbatim>\<open>chars\<close> of \<open>randchar\<close>: 256 entries, the first \<open>len\<close>
  of them distinct and not NUL, the others still 0 as initialised.
\<close>

definition chars_ok :: "nat list \<Rightarrow> nat \<Rightarrow> bool" where
  "chars_ok chars len =
     (length chars = 256 \<and> len \<le> 256 \<and> distinct (take len chars) \<and>
      set (take len chars) \<subseteq> {1..255} \<and> drop len chars = replicate (256 - len) 0)"

text \<open>
  The working set of the class that starts at index \<open>i\<close> (the entries
  \<^verbatim>\<open>chars[0] .. chars[len - 1]\<close> after the scan), with the index of the closing bracket.
\<close>

definition class_at :: "string \<Rightarrow> nat \<Rightarrow> fault + nat list \<times> nat" where
  "class_at s i =
     (case scan_class s i (replicate 256 0) 0 of
        Inl f \<Rightarrow> Inl f
      | Inr (chars, len, j) \<Rightarrow> Inr (take len chars, j))"

text \<open>A printable byte (0x21..0x7E) with no structural meaning in a pattern.\<close>

definition plain :: "char \<Rightarrow> bool" where
  "plain c = (33 \<le> (of_char c :: nat) \<and> (of_char c :: nat) \<le> 126 \<and>
              (of_char c :: nat) \<notin> {40, 41, 45, 91, 92, 93})"

text \<open>The pattern in which every byte of \<open>cs\<close> is preceded by a backslash.\<close>

definition escaped :: "string \<Rightarrow> string" where
  "escaped cs = concat (map (\<lambda>c. [CHR 0x5C, c]) cs)"

text \<open>
  \<open>returns rnd s origin i t time ipt_exit x r\<close>: the loop of \<open>generate\<close>, entered at index
  \<open>i\<close> with these local variables and state \<open>x\<close>, ends with \<open>r\<close> (for every large enough
  amount of fuel, see \<open>returns_enough_fuel\<close>).
\<close>

definition returns ::
  "(nat \<Rightarrow> nat) \<Rightarrow> string \<Rightarrow> nat \<Rightarrow> nat \<Rightarrow> int \<Rightarrow> int \<Rightarrow> nat option \<Rightarrow> st \<Rightarrow> fault + int \<times> st \<Rightarrow> bool"
  where
  "returns rnd s origin i t time ipt_exit x r =
     (\<exists>fuel. gen_loop fuel rnd s origin i t time ipt_exit x = Some r)"

text \<open>
  One execution of the group body \<^verbatim>\<open>[A-Za-z][0-9]\<close>: a letter and a digit are drawn, each with
  its own call of \<^verbatim>\<open>rand()\<close>.
\<close>

definition letter_digit :: "(nat \<Rightarrow> nat) \<Rightarrow> st \<Rightarrow> st" where
  "letter_digit rnd y =
     y\<lparr>out := out y @ [([65..<91] @ [97..<123]) ! (rnd (drawn y) mod 52),
                         [48..<58] ! (rnd (drawn y + 1) mod 10)],
       drawn := drawn y + 2\<rparr>"

text \<open>The working set that the scan of \<^verbatim>\<open>src/pwdgen.c\<close> builds for the class at index \<open>i\<close>.\<close>

definition class_at_pwdgen :: "string \<Rightarrow> nat \<Rightarrow> fault + nat list \<times> nat" where
  "class_at_pwdgen s i =
     (case scan_class_pwdgen s i (replicate 256 0) 0 of
        Inl f \<Rightarrow> Inl f
      | Inr (chars, len, j) \<Rightarrow> Inr (take len chars, j))"

text \<open>
  Index \<open>i\<close> of the pattern lies inside a class: the nearest bracket to its left is an
  opening one. On a pattern without a backslash this is the value of \<^verbatim>\<open>in\<close> when either
  validator reaches index \<open>i\<close>.
\<close>

fun in_class :: "string \<Rightarrow> nat \<Rightarrow> bool" where
  "in_class s 0 = False"
| "in_class s (Suc i) =
     (if at s i = 91 then True else if at s i = 93 then False else in_class s i)"

text \<open>
  Shapes of a pattern on which the two validators are compared: it has no backslash; it
  begins with \<^verbatim>\<open>[-\<close>; it has an empty class \<^verbatim>\<open>[]\<close> whose bracket is not the first byte;
  it has a \<^verbatim>\<open>-\<close> outside every class that is the first byte or whose right neighbour (the
  terminating NUL included) has a smaller code than its left neighbour.
\<close>

definition no_backslash :: "string \<Rightarrow> bool" where
  "no_backslash s = (CHR 0x5C \<notin> set s)"

definition class_dash_first :: "string \<Rightarrow> bool" where
  "class_dash_first s = (at s 0 = 91 \<and> at s 1 = 45)"

definition empty_class_inside :: "string \<Rightarrow> bool" where
  "empty_class_inside s = (\<exists>i \<in> {1..<length s}. at s i = 91 \<and> at s (i + 1) = 93)"

definition dash_outside_unordered :: "string \<Rightarrow> bool" where
  "dash_outside_unordered s =
     (\<exists>i \<in> {0..<length s}. at s i = 45 \<and> \<not> in_class s i \<and> (i = 0 \<or> at s (i + 1) < at s (i - 1)))"

section \<open>Auxiliary lemmas\<close>

subsection \<open>The array of \<open>randchar\<close>\<close>

lemma chars_ok_init: "chars_ok (replicate 256 0) 0"
  by (simp add: chars_ok_def)

lemma chars_ok_len: assumes "chars_ok chars len" shows "len \<le> 255"
proof -
  from assms have l: "length (take len chars) = len" by (simp add: chars_ok_def)
  from assms have "card (set (take len chars)) = length (take len chars)"
    by (simp add: chars_ok_def distinct_card)
  moreover from assms have "card (set (take len chars)) \<le> card {1..255::nat}"
    by (intro card_mono) (simp_all add: chars_ok_def)
  ultimately show ?thesis using l by simp
qed

lemma at_less: "at s i < 256"
  by (simp add: at_def)

lemma strfind_loop_eq:
  "Suc len \<le> length lst \<Longrightarrow> k \<le> Suc len \<Longrightarrow>
   strfind_loop tar lst len k = Inr (if tar \<in> set (drop k (take (Suc len) lst)) then 1 else 0)"
proof (induction tar lst len k rule: strfind_loop.induct)
  case (1 tar lst len k)
  show ?case
  proof (cases "k \<le> len")
    case True
    then have k: "k < length lst" using "1.prems" by simp
    have "drop k (take (Suc len) lst) =
          take (Suc len) lst ! k # drop (Suc k) (take (Suc len) lst)"
      using True k by (intro Cons_nth_drop_Suc [symmetric]) simp
    then have d: "drop k (take (Suc len) lst) = lst ! k # drop (Suc k) (take (Suc len) lst)"
      using True by simp
    show ?thesis
    proof (cases "lst ! k = tar")
      case True
      with \<open>k \<le> len\<close> k d show ?thesis by (subst strfind_loop.simps) simp
    next
      case False
      with \<open>k \<le> len\<close> k d "1.IH" "1.prems" show ?thesis
        by (subst strfind_loop.simps) auto
    qed
  next
    case False
    with "1.prems" show ?thesis by (subst strfind_loop.simps) simp
  qed
qed

lemma strfind_eq:
  assumes "chars_ok chars len"
  shows "strfind tar chars len = Inr (if tar = 0 \<or> tar \<in> set (take len chars) then 1 else 0)"
proof -
  have len: "len \<le> 255" using assms by (rule chars_ok_len)
  have L: "length chars = 256" using assms by (simp add: chars_ok_def)
  have "chars ! len = hd (drop len chars)" using len L by (simp add: hd_drop_conv_nth)
  also have "\<dots> = 0" using assms len by (simp add: chars_ok_def)
  finally have z: "chars ! len = 0" .
  have "take (Suc len) chars = take len chars @ [chars ! len]"
    using len L by (simp add: take_Suc_conv_app_nth)
  with z have "set (take (Suc len) chars) = insert 0 (set (take len chars))" by simp
  then show ?thesis using len L by (auto simp add: strfind_def strfind_loop_eq)
qed

lemma chars_ok_add:
  assumes ok: "chars_ok chars len" and c: "c \<noteq> 0" "c < 256" "c \<notin> set (take len chars)"
  shows "chars_ok (chars[len := c]) (Suc len) \<and>
         take (Suc len) (chars[len := c]) = take len chars @ [c]"
proof -
  have len: "len \<le> 255" using ok by (rule chars_ok_len)
  have L: "length chars = 256" using ok by (simp add: chars_ok_def)
  have t: "take (Suc len) (chars[len := c]) = take len chars @ [c]"
    using len L by (simp add: take_Suc_conv_app_nth)
  have "drop (Suc len) (chars[len := c]) = drop (Suc len) chars" by simp
  also have "\<dots> = tl (drop len chars)" by (simp add: drop_Suc tl_drop)
  also have "\<dots> = replicate (256 - Suc len) 0" using ok len by (simp add: chars_ok_def)
  finally have d: "drop (Suc len) (chars[len := c]) = replicate (256 - Suc len) 0" .
  show ?thesis using ok c len L t d by (auto simp add: chars_ok_def)
qed

lemma range_loop_ok:
  "chars_ok chars len \<Longrightarrow> 1 \<le> c \<Longrightarrow> e \<le> 256 \<Longrightarrow>
   \<exists>chars' len'. range_loop c e chars len = Inr (chars', len') \<and> chars_ok chars' len' \<and>
     set (take len' chars') = set (take len chars) \<union> {c..<e}"
proof (induction c e chars len rule: range_loop.induct)
  case (1 c e chars len)
  show ?case
  proof (cases "c < e")
    case False
    with "1.prems" show ?thesis by (subst range_loop.simps) simp
  next
    case True
    have sf: "strfind c chars len = Inr (if c \<in> set (take len chars) then 1 else 0)"
      using "1.prems" by (simp add: strfind_eq)
    have len: "len < length chars"
      using chars_ok_len [OF "1.prems"(1)] "1.prems"(1) by (simp add: chars_ok_def)
    have split: "{c..<e} = insert c {Suc c..<e}" using True by auto
    show ?thesis
    proof (cases "c \<in> set (take len chars)")
      case True
      from "1.IH"(2) [OF \<open>c < e\<close> sf] True "1.prems"
      obtain chars' len' where
        "range_loop (c + 1) e chars len = Inr (chars', len')" "chars_ok chars' len'"
        "set (take len' chars') = set (take len chars) \<union> {c + 1..<e}"
        by auto
      with True \<open>c < e\<close> sf split show ?thesis
        by (subst range_loop.simps) auto
    next
      case False
      from chars_ok_add [OF "1.prems"(1), of c] False True "1.prems"
      have ok: "chars_ok (chars[len := c]) (len + 1)"
        and tk: "take (len + 1) (chars[len := c]) = take len chars @ [c]" by auto
      from "1.IH"(1) [OF \<open>c < e\<close> sf _ len ok] False "1.prems"
      obtain chars' len' where
        "range_loop (c + 1) e (chars[len := c]) (len + 1) = Inr (chars', len')"
        "chars_ok chars' len'"
        "set (take len' chars') = set (take (len + 1) (chars[len := c])) \<union> {c + 1..<e}"
        by auto
      with False \<open>c < e\<close> sf split len tk show ?thesis
        by (subst range_loop.simps) auto
    qed
  qed
qed

lemma scan_class_ok:
  "chars_ok chars len \<Longrightarrow> scan_class s i chars len = Inr (chars', len', j) \<Longrightarrow>
   chars_ok chars' len' \<and> set (take len chars) \<subseteq> set (take len' chars') \<and> i \<le> j \<and>
   at s j = 93"
proof (induction s i chars len rule: scan_class.induct)
  case (1 s i chars len)
  note step = "1.prems"(2) [unfolded scan_class.simps [of s i chars len]]
  have len: "len < length chars"
    using chars_ok_len [OF "1.prems"(1)] "1.prems"(1) by (simp add: chars_ok_def)
  show ?case
  proof (cases "i > length s \<or> at s i = 93")
    case True
    with step "1.prems"(1) show ?thesis by (auto split: if_splits)
  next
    case False
    then have i: "\<not> length s < i" "at s i \<noteq> 93" by auto
    show ?thesis
    proof (cases "at s i = 45")
      case True
      with step i have i0: "i \<noteq> 0" by (auto split: if_splits)
      let ?e = "if at s (i + 1) = 92 then at s (i + 2) else at s (i + 1)"
      have "?e \<le> 256" using at_less [of s "i + 1"] at_less [of s "i + 2"] by auto
      from range_loop_ok [OF "1.prems"(1) _ this, of "at s (i - 1) + 1"]
      obtain c1 l1 where r: "range_loop (at s (i - 1) + 1) ?e chars len = Inr (c1, l1)"
        and ok1: "chars_ok c1 l1"
        and s1: "set (take l1 c1) = set (take len chars) \<union> {at s (i - 1) + 1..<?e}"
        by auto
      from step i True i0 r have "scan_class s (i + 1) c1 l1 = Inr (chars', len', j)"
        by simp
      from "1.IH"(1) [OF i True i0 r refl ok1 this] s1
      show ?thesis by auto
    next
      case False
      let ?j = "if at s i = 92 then i + 1 else i"
      have sf: "strfind (at s ?j) chars len =
                Inr (if at s ?j = 0 \<or> at s ?j \<in> set (take len chars) then 1 else 0)"
        using "1.prems"(1) by (rule strfind_eq)
      show ?thesis
      proof (cases "at s ?j = 0 \<or> at s ?j \<in> set (take len chars)")
        case True
        with step i False sf have "scan_class s (?j + 1) chars len = Inr (chars', len', j)"
          by (simp add: Let_def split: if_splits)
        from "1.IH"(3) [OF i False refl sf _ "1.prems"(1) this] True
        show ?thesis by (auto split: if_splits)
      next
        case F: False
        with step i False sf len
        have sc: "scan_class s (?j + 1) (chars[len := at s ?j]) (len + 1) = Inr (chars', len', j)"
          by (simp add: Let_def split: if_splits)
        from chars_ok_add [OF "1.prems"(1), of "at s ?j"] F at_less [of s ?j]
        have ok: "chars_ok (chars[len := at s ?j]) (len + 1)"
          and tk: "take (len + 1) (chars[len := at s ?j]) = take len chars @ [at s ?j]"
          by auto
        from "1.IH"(2) [OF i False refl sf _ len ok sc] F tk
        show ?thesis by (auto split: if_splits)
      qed
    qed
  qed
qed

lemma at_nonzero: "at s i \<noteq> 0 \<Longrightarrow> i < length s"
  by (simp add: at_def split: if_splits)

lemma scan_plain:
  assumes ok: "chars_ok chars len" and a: "at s i = a" "a \<noteq> 0" "a \<noteq> 45" "a \<noteq> 92" "a \<noteq> 93"
  shows "\<exists>chars' len'. scan_class s i chars len = scan_class s (i + 1) chars' len' \<and>
           chars_ok chars' len' \<and> set (take len' chars') = insert a (set (take len chars))"
proof -
  have i: "i < length s" using a at_nonzero [of s i] by simp
  have len: "len < length chars"
    using chars_ok_len [OF ok] ok by (simp add: chars_ok_def)
  have sf: "strfind a chars len = Inr (if a \<in> set (take len chars) then 1 else 0)"
    using ok a by (simp add: strfind_eq)
  show ?thesis
  proof (cases "a \<in> set (take len chars)")
    case True
    then have "scan_class s i chars len = scan_class s (i + 1) chars len"
      using i a sf by (subst scan_class.simps) simp
    with ok True show ?thesis by (intro exI [of _ chars] exI [of _ len]) auto
  next
    case False
    then have "scan_class s i chars len = scan_class s (i + 1) (chars[len := a]) (len + 1)"
      using i a sf len by (subst scan_class.simps) simp
    moreover from chars_ok_add [OF ok, of a] False a at_less [of s i]
    have "chars_ok (chars[len := a]) (len + 1)"
      "take (len + 1) (chars[len := a]) = take len chars @ [a]" by auto
    ultimately show ?thesis
      by (intro exI [of _ "chars[len := a]"] exI [of _ "len + 1"]) auto
  qed
qed

lemma scan_dash:
  assumes ok: "chars_ok chars len" and d: "at s i = 45" "0 < i" and e: "at s (i + 1) \<noteq> 92"
  shows "\<exists>chars' len'. scan_class s i chars len = scan_class s (i + 1) chars' len' \<and>
           chars_ok chars' len' \<and>
           set (take len' chars') = set (take len chars) \<union> {at s (i - 1) + 1..<at s (i + 1)}"
proof -
  have i: "i < length s" using d at_nonzero [of s i] by simp
  have "at s (i + 1) \<le> 256" using at_less [of s "i + 1"] by simp
  from range_loop_ok [OF ok _ this, of "at s (i - 1) + 1"]
  obtain c1 l1 where r: "range_loop (at s (i - 1) + 1) (at s (i + 1)) chars len = Inr (c1, l1)"
    and ok1: "chars_ok c1 l1"
    and s1: "set (take l1 c1) = set (take len chars) \<union> {at s (i - 1) + 1..<at s (i + 1)}"
    by auto
  have "scan_class s i chars len = scan_class s (i + 1) c1 l1"
    using i d e r by (subst scan_class.simps) simp
  with ok1 s1 show ?thesis by blast
qed

lemma scan_range_item:
  assumes ok: "chars_ok chars len"
    and a: "at s i = a" "a \<noteq> 0" "a \<noteq> 45" "a \<noteq> 92" "a \<noteq> 93"
    and d: "at s (i + 1) = 45"
    and b: "at s (i + 2) = b" "b \<noteq> 0" "b \<noteq> 45" "b \<noteq> 92" "b \<noteq> 93"
    and le: "a \<le> b"
  shows "\<exists>chars' len'. scan_class s i chars len = scan_class s (i + 3) chars' len' \<and>
           chars_ok chars' len' \<and> set (take len' chars') = set (take len chars) \<union> {a..b}"
proof -
  from scan_plain [OF ok a] obtain c1 l1 where
    1: "scan_class s i chars len = scan_class s (i + 1) c1 l1" "chars_ok c1 l1"
       "set (take l1 c1) = insert a (set (take len chars))" by blast
  from scan_dash [OF 1(2), of s "i + 1"] d b a obtain c2 l2 where
    2: "scan_class s (i + 1) c1 l1 = scan_class s (i + 2) c2 l2" "chars_ok c2 l2"
       "set (take l2 c2) = set (take l1 c1) \<union> {a + 1..<b}" by (auto simp: numeral_2_eq_2)
  from scan_plain [OF 2(2), of s "i + 2" b] b obtain c3 l3 where
    3: "scan_class s (i + 2) c2 l2 = scan_class s (i + 3) c3 l3" "chars_ok c3 l3"
       "set (take l3 c3) = insert b (set (take l2 c2))" by (auto simp: numeral_3_eq_3 numeral_2_eq_2)
  have "insert b (insert a (set (take len chars)) \<union> {a + 1..<b}) = set (take len chars) \<union> {a..b}"
    using le by auto
  with 1 2 3 show ?thesis by (intro exI [of _ c3] exI [of _ l3]) simp
qed

lemma strtol_pos:
  assumes "48 < at s p" "at s p \<le> 57" "fst (strtol s p) < 2 ^ 31"
  shows "0 < fst (strtol s p)"
proof -
  have p: "p < length s" using assms at_nonzero [of s p] by simp
  then obtain c cs where dr: "drop p s = c # cs" and c: "of_char c = at s p"
    by (metis Cons_nth_drop_Suc at_def)
  have mono: "v \<le> foldl (\<lambda>a d. 10 * a + (d - 48)) v ds" for v :: nat and ds
  proof (induction ds arbitrary: v)
    case Nil
    show ?case by simp
  next
    case (Cons d ds)
    have "v \<le> 10 * v + (d - 48)" by simp
    also have "\<dots> \<le> foldl (\<lambda>a d. 10 * a + (d - 48)) (10 * v + (d - 48)) ds"
      by (rule Cons.IH)
    finally show ?case by simp
  qed
  have "digit_run s p = at s p # takeWhile (\<lambda>d. 48 \<le> d \<and> d \<le> 57) (map of_char cs)"
    using dr c assms by (simp add: digit_run_def)
  moreover have "0 < at s p - 48" using assms by simp
  then have "0 < foldl (\<lambda>a d. 10 * a + (d - 48)) (at s p - 48)
               (takeWhile (\<lambda>d. 48 \<le> d \<and> d \<le> 57) (map of_char cs))"
    by (rule less_le_trans) (rule mono)
  ultimately have "0 < foldl (\<lambda>a d. 10 * a + (d - 48)) 0 (digit_run s p)"
    by simp
  then show ?thesis by (simp add: strtol_def)
qed

subsection \<open>Drawing\<close>

lemma draw_n_eq:
  "0 < len \<Longrightarrow>
   draw_n rnd chars len n x =
     Inr (x\<lparr>out := out x @ map (\<lambda>k. chars ! (rnd (drawn x + k) mod len)) [0..<n],
            drawn := drawn x + n\<rparr>)"
proof (induction n arbitrary: x)
  case 0
  then show ?case by simp
next
  case (Suc n)
  have m: "map (\<lambda>k. chars ! (rnd (drawn x + k) mod len)) [0..<Suc n] =
           chars ! (rnd (drawn x) mod len) #
           map (\<lambda>k. chars ! (rnd (Suc (drawn x + k)) mod len)) [0..<n]"
    by (simp add: upt_conv_Cons map_Suc_upt [symmetric] o_def del: upt_Suc)
  show ?case using Suc.prems
    by (simp add: Suc.IH putchar_def m del: upt_Suc)
qed

lemma to_int_small: "v < 2 ^ 31 \<Longrightarrow> to_int v = int v"
  by (simp add: to_int_def)

lemma randchar_suffix:
  assumes sc: "scan_class s i (replicate 256 0) 0 = Inr (chars, len, j)" and len: "0 < len"
    and suf: "at s (j + 1) = 42" "48 < at s (j + 2)" "at s (j + 2) \<le> 57"
    and n: "fst (strtol s (j + 2)) < 2 ^ 31"
  shows "randchar rnd s i x =
     Inr (int (snd (strtol s (j + 2))) - int i - 1,
          x\<lparr>out := out x @ map (\<lambda>k. chars ! (rnd (drawn x + k) mod len))
                               [0..<fst (strtol s (j + 2))],
            drawn := drawn x + fst (strtol s (j + 2))\<rparr>)"
  using sc len suf n by (simp add: randchar_def draw_def to_int_small draw_n_eq)

lemma randchar_plain:
  assumes sc: "scan_class s i (replicate 256 0) 0 = Inr (chars, len, j)" and len: "0 < len"
    and suf: "\<not> (at s (j + 1) = 42 \<and> 48 < at s (j + 2) \<and> at s (j + 2) \<le> 57)"
  shows "randchar rnd s i x =
     Inr (int j - int i,
          x\<lparr>out := out x @ [chars ! (rnd (drawn x) mod len)], drawn := drawn x + 1\<rparr>)"
  using sc len suf by (auto simp add: randchar_def draw_def putchar_def)

lemma drawn_in_set:
  assumes sc: "scan_class s i (replicate 256 0) 0 = Inr (chars, len, j)" and len: "0 < len"
  shows "chars ! (r mod len) \<in> set (take len chars)"
proof -
  from scan_class_ok [OF chars_ok_init sc] have "chars_ok chars len" by simp
  then have "len \<le> length chars" by (simp add: chars_ok_def)
  moreover have "r mod len < len" using len by simp
  ultimately show ?thesis by (metis in_set_conv_nth length_take min.absorb2 nth_take)
qed

lemma class_at_letters: "class_at ''([A-Za-z][0-9])*3'' 2 = Inr ([65..<91] @ [97..<123], 8)"
  by code_simp
lemma class_at_digits: "class_at ''([A-Za-z][0-9])*3'' 10 = Inr ([48..<58], 13)"
  by code_simp
lemma class_at_0_3: "class_at ''[0-3]'' (Suc 0) = Inr ([48, 49, 50, 51], 4)"
  by code_simp

lemma class_at_scan:
  assumes "class_at s i = Inr (cs, j)"
  shows "\<exists>chars. scan_class s i (replicate 256 0) 0 = Inr (chars, length cs, j) \<and>
                 take (length cs) chars = cs \<and> chars_ok chars (length cs)"
proof -
  from assms obtain chars len where
    sc: "scan_class s i (replicate 256 0) 0 = Inr (chars, len, j)" and cs: "cs = take len chars"
    by (auto simp add: class_at_def split: sum.splits)
  from scan_class_ok [OF chars_ok_init sc] have ok: "chars_ok chars len" by simp
  then have "length cs = len" using cs by (simp add: chars_ok_def)
  with sc cs ok show ?thesis by auto
qed

lemma randchar_class_plain:
  assumes ca: "class_at s i = Inr (cs, j)" and ne: "cs \<noteq> []"
    and suf: "\<not> (at s (j + 1) = 42 \<and> 48 < at s (j + 2) \<and> at s (j + 2) \<le> 57)"
  shows "randchar rnd s i x =
     Inr (int j - int i,
          x\<lparr>out := out x @ [cs ! (rnd (drawn x) mod length cs)], drawn := drawn x + 1\<rparr>)"
proof -
  from class_at_scan [OF ca] obtain chars where
    sc: "scan_class s i (replicate 256 0) 0 = Inr (chars, length cs, j)"
    and tk: "take (length cs) chars = cs" by auto
  have "rnd (drawn x) mod length cs < length cs" using ne by simp
  then have "chars ! (rnd (drawn x) mod length cs) = cs ! (rnd (drawn x) mod length cs)"
    using tk by (metis nth_take)
  with randchar_plain [OF sc _ suf, of rnd x] ne show ?thesis by simp
qed

lemma randchar_class_suffix:
  assumes ca: "class_at s i = Inr (cs, j)" and ne: "cs \<noteq> []"
    and suf: "at s (j + 1) = 42" "48 < at s (j + 2)" "at s (j + 2) \<le> 57"
    and n: "fst (strtol s (j + 2)) < 2 ^ 31"
  shows "randchar rnd s i x =
     Inr (int (snd (strtol s (j + 2))) - int i - 1,
          x\<lparr>out := out x @ map (\<lambda>k. cs ! (rnd (drawn x + k) mod length cs))
                               [0..<fst (strtol s (j + 2))],
            drawn := drawn x + fst (strtol s (j + 2))\<rparr>)"
proof -
  from class_at_scan [OF ca] obtain chars where
    sc: "scan_class s i (replicate 256 0) 0 = Inr (chars, length cs, j)"
    and tk: "take (length cs) chars = cs" by auto
  have "chars ! (r mod length cs) = cs ! (r mod length cs)" for r
  proof -
    have "r mod length cs < length cs" using ne by simp
    then show ?thesis using tk by (metis nth_take)
  qed
  with randchar_suffix [OF sc _ suf n, of rnd x] ne show ?thesis by simp
qed

subsection \<open>Evaluation on concrete patterns\<close>

lemmas run_simps = generate_def at_def randchar_def scan_class.simps range_loop.simps
  strfind_def strfind_loop.simps draw_def putchar_def strtol_def digit_run_def to_int_def

lemma check_single_range:
  assumes "plain a" "plain b"
  shows "check [CHR ''['', a, CHR ''-'', b, CHR '']''] =
         Inr (if of_char b < (of_char a :: nat) then 0 else 1)"
  using assms by (simp add: plain_def check_def check_loop.simps at_def)

lemma generate_degenerate_range:
  assumes "plain a"
  shows "generate (Suc (Suc fuel)) rnd [CHR ''['', a, CHR ''-'', a, CHR '']''] 0 x =
         Some (Inr (5, x\<lparr>out := out x @ [of_char a], drawn := drawn x + 1\<rparr>))"
  using assms by (simp add: plain_def run_simps)

lemma scan_dash_escaped:
  assumes ok: "chars_ok chars len" and d: "at s i = 45" "0 < i" and e: "at s (i + 1) = 92"
  shows "\<exists>chars' len'. scan_class s i chars len = scan_class s (i + 1) chars' len' \<and>
           chars_ok chars' len' \<and>
           set (take len' chars') = set (take len chars) \<union> {at s (i - 1) + 1..<at s (i + 2)}"
proof -
  have i: "i < length s" using d at_nonzero [of s i] by simp
  have "at s (i + 2) \<le> 256" using at_less [of s "i + 2"] by simp
  from range_loop_ok [OF ok _ this, of "at s (i - 1) + 1"]
  obtain c1 l1 where r: "range_loop (at s (i - 1) + 1) (at s (i + 2)) chars len = Inr (c1, l1)"
    and ok1: "chars_ok c1 l1"
    and s1: "set (take l1 c1) = set (take len chars) \<union> {at s (i - 1) + 1..<at s (i + 2)}"
    by auto
  have "scan_class s i chars len = scan_class s (i + 1) c1 l1"
    using i d e r by (subst scan_class.simps) simp
  with ok1 s1 show ?thesis by blast
qed

lemma scan_escaped:
  assumes ok: "chars_ok chars len" and a: "at s i = 92" "at s (i + 1) = b" "b \<noteq> 0"
  shows "\<exists>chars' len'. scan_class s i chars len = scan_class s (i + 2) chars' len' \<and>
           chars_ok chars' len' \<and> set (take len' chars') = insert b (set (take len chars))"
proof -
  have i: "i < length s" using a at_nonzero [of s i] by simp
  have len: "len < length chars"
    using chars_ok_len [OF ok] ok by (simp add: chars_ok_def)
  have sf: "strfind b chars len = Inr (if b \<in> set (take len chars) then 1 else 0)"
    using ok a by (simp add: strfind_eq)
  show ?thesis
  proof (cases "b \<in> set (take len chars)")
    case True
    then have "scan_class s i chars len = scan_class s (i + 2) chars len"
      using i a sf by (subst scan_class.simps) simp
    with ok True show ?thesis by (intro exI [of _ chars] exI [of _ len]) auto
  next
    case False
    then have "scan_class s i chars len = scan_class s (i + 2) (chars[len := b]) (len + 1)"
      using i a sf len by (subst scan_class.simps) simp
    moreover from chars_ok_add [OF ok, of b] False a at_less [of s "i + 1"]
    have "chars_ok (chars[len := b]) (len + 1)"
      "take (len + 1) (chars[len := b]) = take len chars @ [b]" by auto
    ultimately show ?thesis
      by (intro exI [of _ "chars[len := b]"] exI [of _ "len + 1"]) auto
  qed
qed

lemma scan_range_item_escaped:
  assumes ok: "chars_ok chars len"
    and a: "at s i = a" "a \<noteq> 0" "a \<noteq> 45" "a \<noteq> 92" "a \<noteq> 93"
    and d: "at s (i + 1) = 45" "at s (i + 2) = 92"
    and b: "at s (i + 3) = b" "b \<noteq> 0"
    and le: "a \<le> b"
  shows "\<exists>chars' len'. scan_class s i chars len = scan_class s (i + 4) chars' len' \<and>
           chars_ok chars' len' \<and> set (take len' chars') = set (take len chars) \<union> {a..b}"
proof -
  from scan_plain [OF ok a] obtain c1 l1 where
    1: "scan_class s i chars len = scan_class s (i + 1) c1 l1" "chars_ok c1 l1"
       "set (take l1 c1) = insert a (set (take len chars))" by blast
  have i3: "i + 1 + 2 = i + 3" by simp
  from scan_dash_escaped [OF 1(2), of s "i + 1"] d b a obtain c2 l2 where
    2: "scan_class s (i + 1) c1 l1 = scan_class s (i + 2) c2 l2" "chars_ok c2 l2"
       "set (take l2 c2) = set (take l1 c1) \<union> {a + 1..<b}"
    by (auto simp: numeral_2_eq_2 numeral_3_eq_3)
  from scan_escaped [OF 2(2), of s "i + 2" b] d b obtain c3 l3 where
    3: "scan_class s (i + 2) c2 l2 = scan_class s (i + 4) c3 l3" "chars_ok c3 l3"
       "set (take l3 c3) = insert b (set (take l2 c2))"
    by (auto simp: numeral_3_eq_3 numeral_2_eq_2 eval_nat_numeral)
  have "insert b (insert a (set (take len chars)) \<union> {a + 1..<b}) = set (take len chars) \<union> {a..b}"
    using le by auto
  with 1 2 3 show ?thesis by (intro exI [of _ c3] exI [of _ l3]) simp
qed

lemma generate_0_3:
  "generate (Suc (Suc fuel)) rnd ''[0-3]'' 0 x =
     Some (Inr (5, x\<lparr>out := out x @ [48 + rnd (drawn x) mod 4], drawn := drawn x + 1\<rparr>))"
proof -
  have m: "rnd (drawn x) mod 4 < 4" by simp
  have "[48, 49, 50, 51] ! k = 48 + k" if "k < 4" for k :: nat
    using that by (auto simp add: less_Suc_eq numeral_eq_Suc)
  from this [OF m] have "randchar rnd ''[0-3]'' (Suc 0) x =
     Inr (3, x\<lparr>out := out x @ [48 + rnd (drawn x) mod 4], drawn := drawn x + 1\<rparr>)"
    using randchar_class_plain [OF class_at_0_3, of rnd x] by (simp add: at_def)
  then show ?thesis by (simp add: generate_def at_def)
qed

text \<open>The class \<^verbatim>\<open>[!--0]\<close>, the same class with the second dash escaped, and the older scan.\<close>

lemma class_at_dash_end:
  "class_at ''[!--0]'' (Suc 0) =
     Inr ([33, 34, 35, 36, 37, 38, 39, 40, 41, 42, 43, 44, 46, 47, 48], 5)"
  by code_simp

lemma class_at_escaped_dash_end:
  "class_at [CHR ''['', CHR ''!'', CHR ''-'', CHR 0x5C, CHR ''-'', CHR ''0'', CHR '']''] (Suc 0) =
     Inr ([33, 34, 35, 36, 37, 38, 39, 40, 41, 42, 43, 44, 45, 48], 6)"
  by code_simp

lemma class_at_pwdgen_dash_end:
  "class_at_pwdgen ''[!--0]'' (Suc 0) =
     Inr ([33, 34, 35, 36, 37, 38, 39, 40, 41, 42, 43, 44, 45, 48], 5)"
  by code_simp

lemma generate_dash_end:
  "generate (Suc (Suc fuel)) rnd ''[!--0]'' 0 x =
     Some (Inr (6, x\<lparr>out := out x @
       [[33, 34, 35, 36, 37, 38, 39, 40, 41, 42, 43, 44, 46, 47, 48] ! (rnd (drawn x) mod 15)],
       drawn := drawn x + 1\<rparr>))"
proof -
  have "randchar rnd ''[!--0]'' (Suc 0) x =
     Inr (4, x\<lparr>out := out x @
       [[33, 34, 35, 36, 37, 38, 39, 40, 41, 42, 43, 44, 46, 47, 48] ! (rnd (drawn x) mod 15)],
       drawn := drawn x + 1\<rparr>)"
    using randchar_class_plain [OF class_at_dash_end, of rnd x] by (simp add: at_def)
  then show ?thesis by (simp add: generate_def at_def)
qed

lemma class_at_bracket_start:
  "class_at [CHR 0x5C, CHR 0x5C, CHR ''['', CHR ''-'', CHR ''a'', CHR '']''] 3 =
     Inr ([92, 93, 94, 95, 96, 97], 5)"
  by code_simp

lemma ca_a5: "class_at ''[a]*5'' (Suc 0) = Inr ([97], 2)" by code_simp
lemma ca_aab: "class_at ''[aab]'' (Suc 0) = Inr ([97, 98], 4)" by code_simp
lemma ca_ab: "class_at ''[ab]'' (Suc 0) = Inr ([97, 98], 3)" by code_simp

lemma strtol_a5: "strtol ''[a]*5'' 4 = (5, 5)"
  by (simp add: strtol_def digit_run_def)

lemma generate_a5:
  "generate (Suc (Suc fuel)) rnd ''[a]*5'' 0 x =
     Some (Inr (5, x\<lparr>out := out x @ [97, 97, 97, 97, 97], drawn := drawn x + 5\<rparr>))"
proof -
  have "randchar rnd ''[a]*5'' (Suc 0) x =
     Inr (3, x\<lparr>out := out x @ [97, 97, 97, 97, 97], drawn := drawn x + 5\<rparr>)"
    using randchar_class_suffix [OF ca_a5, of rnd x]
    by (simp add: at_def strtol_a5 upt_rec [of _ 5] upt_rec [of _ "numeral n" for n])
  then show ?thesis by (simp add: generate_def at_def)
qed

lemma class_at_xyz12: "class_at ''[xyz]*12'' (Suc 0) = Inr ([120, 121, 122], 4)" by code_simp
lemma class_at_xyz: "class_at ''[xyz]'' (Suc 0) = Inr ([120, 121, 122], 4)" by code_simp
lemma class_at_hello: "class_at ''[hello]'' (Suc 0) = Inr ([104, 101, 108, 111], 6)" by code_simp

lemma generate_aab:
  "generate (Suc (Suc fuel)) rnd ''[aab]'' 0 x =
     Some (Inr (5, x\<lparr>out := out x @ [97 + rnd (drawn x) mod 2], drawn := drawn x + 1\<rparr>))"
proof -
  have "[97, 98] ! (k mod Suc (Suc 0)) = 97 + k mod 2" for k :: nat
    by (cases "even k") (simp_all add: mod_2_eq_odd flip: numeral_2_eq_2)
  then have "randchar rnd ''[aab]'' (Suc 0) x =
     Inr (3, x\<lparr>out := out x @ [97 + rnd (drawn x) mod 2], drawn := drawn x + 1\<rparr>)"
    using randchar_class_plain [OF ca_aab, of rnd x] by (simp add: at_def)
  then show ?thesis by (simp add: generate_def at_def)
qed

lemma generate_ab:
  "generate (Suc (Suc fuel)) rnd ''[ab]'' 0 x =
     Some (Inr (4, x\<lparr>out := out x @ [97 + rnd (drawn x) mod 2], drawn := drawn x + 1\<rparr>))"
proof -
  have "[97, 98] ! (k mod Suc (Suc 0)) = 97 + k mod 2" for k :: nat
    by (cases "even k") (simp_all add: mod_2_eq_odd flip: numeral_2_eq_2)
  then have "randchar rnd ''[ab]'' (Suc 0) x =
     Inr (2, x\<lparr>out := out x @ [97 + rnd (drawn x) mod 2], drawn := drawn x + 1\<rparr>)"
    using randchar_class_plain [OF ca_ab, of rnd x] by (simp add: at_def)
  then show ?thesis by (simp add: generate_def at_def)
qed

subsection \<open>Escaped bytes\<close>

lemma length_escaped: "length (escaped cs) = 2 * length cs"
  by (induction cs) (simp_all add: escaped_def)

lemma escaped_nth:
  "k < length cs \<Longrightarrow> escaped cs ! (2 * k) = CHR 0x5C \<and> escaped cs ! (2 * k + 1) = cs ! k"
proof (induction cs arbitrary: k)
  case Nil
  then show ?case by simp
next
  case (Cons c cs)
  show ?case
  proof (cases k)
    case 0
    then show ?thesis by (simp add: escaped_def)
  next
    case (Suc m)
    with Cons.prems have "m < length cs" by simp
    from Cons.IH [OF this] Suc show ?thesis by (simp add: escaped_def)
  qed
qed

lemma at_escaped:
  "k < length cs \<Longrightarrow> at (escaped cs) (2 * k) = 92"
  "k < length cs \<Longrightarrow> at (escaped cs) (Suc (2 * k)) = of_char (cs ! k)"
  "at (escaped cs) (2 * length cs) = 0"
  using escaped_nth [of k cs] by (simp_all add: at_def length_escaped)

lemma gen_loop_escape_step:
  "at s i = 92 \<Longrightarrow>
   gen_loop (Suc n) rnd s origin i t time ipt_exit x =
     gen_loop n rnd s origin (i + 2) t time ipt_exit (putchar (at s (i + 1)) x)"
  using at_nonzero [of s i] by simp

lemma check_loop_escaped:
  assumes p: "\<forall>c\<in>set cs. 33 \<le> (of_char c :: nat) \<and> (of_char c :: nat) \<le> 126"
  shows "k \<le> length cs \<Longrightarrow>
         check_loop (escaped cs) (2 * k) inn level = Inr (if inn = 0 \<and> level = 0 then 1 else 0)"
proof (induction "length cs - k" arbitrary: k)
  case 0
  then have "k = length cs" by simp
  then show ?case by (subst check_loop.simps) (simp add: at_escaped)
next
  case (Suc n)
  then have k: "k < length cs" by simp
  then have "cs ! k \<in> set cs" by simp
  with p have pk: "33 \<le> (of_char (cs ! k) :: nat)" "(of_char (cs ! k) :: nat) \<le> 126" by auto
  have "check_loop (escaped cs) (2 * k) inn level = check_loop (escaped cs) (2 * k + 2) inn level"
    using k pk by (subst check_loop.simps) (simp add: at_escaped)
  also have "\<dots> = check_loop (escaped cs) (2 * Suc k) inn level" by simp
  also have "\<dots> = Inr (if inn = 0 \<and> level = 0 then 1 else 0)"
    using Suc.hyps(2) k by (intro Suc.hyps(1)) simp_all
  finally show ?case .
qed

lemma gen_loop_escaped:
  "k \<le> length cs \<Longrightarrow>
   gen_loop (Suc (length cs - k + fuel)) rnd (escaped cs) origin (2 * k) t time ipt_exit x =
     Some (Inr (int (2 * length cs) - int origin, x\<lparr>out := out x @ map of_char (drop k cs)\<rparr>))"
proof (induction "length cs - k" arbitrary: k x)
  case 0
  then have "k = length cs" by simp
  then show ?case by (simp add: at_escaped length_escaped)
next
  case (Suc n)
  then have k: "k < length cs" by simp
  have f: "length cs - k + fuel = Suc (length cs - Suc k + fuel)" using k by simp
  have d: "drop k cs = cs ! k # drop (Suc k) cs" using k by (simp add: Cons_nth_drop_Suc)
  have "gen_loop (Suc (length cs - k + fuel)) rnd (escaped cs) origin (2 * k) t time ipt_exit x =
        gen_loop (Suc (length cs - Suc k + fuel)) rnd (escaped cs) origin (2 * Suc k) t time ipt_exit
          (putchar (of_char (cs ! k)) x)"
    using k by (simp add: gen_loop_escape_step at_escaped f del: gen_loop.simps)
  also have "\<dots> = Some (Inr (int (2 * length cs) - int origin,
        (putchar (of_char (cs ! k)) x)\<lparr>out := out (putchar (of_char (cs ! k)) x) @
           map of_char (drop (Suc k) cs)\<rparr>))"
    using Suc.hyps(2) k by (intro Suc.hyps(1)) simp_all
  finally show ?case by (simp add: putchar_def d)
qed

subsection \<open>The option loop of \<open>main\<close>\<close>

lemma and_or_2_1: "and (or f 2) 1 = and f (1::int)"
  by (simp add: and_one_eq mod_2_eq_odd even_or_iff)

lemma and_or_1_1: "and (or f 1) 1 = (1::int)"
  by (simp add: and_one_eq mod_2_eq_odd even_or_iff)

lemma fold_no_p:
  "\<forall>a. OptP a \<notin> set opts \<Longrightarrow>
   \<exists>f' t'. foldl opt_step (f, t, ip) opts = (f', t', ip) \<and> and f' 1 = and f 1"
proof (induction opts arbitrary: f t)
  case Nil
  then show ?case by simp
next
  case (Cons o1 opts)
  then have rest: "\<forall>a. OptP a \<notin> set opts" by simp
  show ?case
  proof (cases o1)
    case (OptP a)
    with Cons.prems show ?thesis by auto
  next
    case (OptT n)
    from Cons.IH [OF rest, of "or f 2" n] OptT show ?thesis by (simp add: and_or_2_1)
  next
    case OptOther
    from Cons.IH [OF rest, of f t] OptOther show ?thesis by simp
  qed
qed

lemma fold_last_p:
  assumes "\<forall>a. OptP a \<notin> set later"
  shows "\<exists>f' t'. foldl opt_step (0, 0, None) (earlier @ OptP p # later) = (f', t', Some p) \<and>
           and f' 1 = 1"
proof -
  obtain f1 t1 ip1 where e: "foldl opt_step (0, 0, None) earlier = (f1, t1, ip1)"
    by (cases "foldl opt_step (0, 0, None) earlier") auto
  from fold_no_p [OF assms, of "or f1 1" t1 "Some p"] e show ?thesis
    by (simp add: and_or_1_1)
qed

lemma main_loop_status:
  "main_loop fuel rnd p n x = Some (Inr (status, x')) \<Longrightarrow> status = 0"
  by (induction n arbitrary: x) (auto split: option.splits sum.splits)

lemma main_abc:
  "main (Suc (Suc (Suc (Suc fuel)))) rnd True [OptP ''abc'', OptT 3] x =
     Some (Inr (0, x\<lparr>out := out x @ [97, 98, 99, 10, 97, 98, 99, 10, 97, 98, 99, 10]\<rparr>))"
proof -
  have c: "check ''abc'' = Inr 1" by (simp add: check_def check_loop.simps at_def)
  have g: "generate (Suc (Suc (Suc (Suc fuel)))) rnd ''abc'' 0 y =
      Some (Inr (3, y\<lparr>out := out y @ [97, 98, 99]\<rparr>))" for y
    by (simp add: generate_def at_def putchar_def)
  show ?thesis
    by (simp add: main_def c g putchar_def eval_nat_numeral del: generate_def)
qed

subsection \<open>The two validators\<close>

text \<open>
  Without a backslash both loops visit every index, and \<^verbatim>\<open>in\<close> is 1 exactly inside a class.
  A pattern that one validator accepts passes every test of the other, except the tests
  named in the hypotheses.
\<close>

lemma in_class_step:
  "in_class s (i + 1) = (if at s i = 91 then True else if at s i = 93 then False else in_class s i)"
  by simp

lemma in_class_pos: "in_class s i \<Longrightarrow> 0 < i \<and> at s (i - 1) \<noteq> 93"
  by (cases i) (auto split: if_splits)

lemma check_accepted_pwdgen:
  assumes nb: "\<forall>i. at s i \<noteq> 92"
    and ns: "\<not> (at s 0 = 91 \<and> at s 1 = 45)"
  shows "inn = (if in_class s i then 1 else 0) \<Longrightarrow> check_loop s i inn level = Inr 1 \<Longrightarrow>
         check_loop_pwdgen s i inn level = Inr 1"
proof (induction "length s - i" arbitrary: i inn level rule: less_induct)
  case less
  note inv = less.prems(1)
  note acc = less.prems(2) [unfolded check_loop.simps [of s i inn level]]
  have step: "check_loop_pwdgen s (i + 1) inn' level' = Inr 1"
    if "at s i \<noteq> 0" "inn' = (if in_class s (i + 1) then 1 else 0)"
       "check_loop s (i + 1) inn' level' = Inr 1" for inn' level'
  proof -
    from that(1) have "i < length s" by (rule at_nonzero)
    then have "length s - (i + 1) < length s - i" by simp
    from less.hyps [OF this that(2) that(3)] show ?thesis .
  qed
  have nb0: "at s i \<noteq> 92" and nb1: "at s (i + 1) \<noteq> 92" and nb2: "at s (i - 2) \<noteq> 92"
    using nb by auto
  note unf = check_loop_pwdgen.simps [of s i inn level]
  consider (stop) "at s i = 0" | (bad) "at s i \<noteq> 0" "at s i < 33 \<or> at s i > 126"
    | (opn) "at s i = 91" | (cls) "at s i = 93" | (lp) "at s i = 40" | (rp) "at s i = 41"
    | (dash) "at s i = 45"
    | (other) "at s i \<noteq> 0" "33 \<le> at s i" "at s i \<le> 126" "at s i \<noteq> 91" "at s i \<noteq> 93"
        "at s i \<noteq> 40" "at s i \<noteq> 41" "at s i \<noteq> 45"
    by (cases "at s i = 0 \<or> at s i < 33 \<or> at s i > 126") auto
  then show ?case
  proof cases
    case stop
    with acc show ?thesis unfolding unf by simp
  next
    case bad
    with acc show ?thesis by simp
  next
    case opn
    with acc have a: "inn = 0" "check_loop s (i + 1) 1 level = Inr 1"
      by (auto split: if_splits)
    from opn have "check_loop_pwdgen s (i + 1) 1 level = Inr 1"
      by (intro step a) (simp_all add: in_class_step)
    with opn a show ?thesis unfolding unf by simp
  next
    case cls
    with acc have a: "inn \<noteq> 0" "check_loop s (i + 1) 0 level = Inr 1"
      by (auto split: if_splits)
    from a inv have i: "inn = 1" "in_class s i" by (auto split: if_splits)
    from in_class_pos [OF i(2)] have p: "0 < i" "at s (i - 1) \<noteq> 93" by auto
    from cls have "check_loop_pwdgen s (i + 1) 0 level = Inr 1"
      by (intro step a) (simp_all add: in_class_step)
    with cls i p show ?thesis unfolding unf by simp
  next
    case lp
    with acc have a: "inn = 0" "check_loop s (i + 1) inn (level + 1) = Inr 1"
      by (auto split: if_splits)
    from lp inv have "check_loop_pwdgen s (i + 1) inn (level + 1) = Inr 1"
      by (intro step a) (simp_all add: in_class_step)
    with lp a show ?thesis unfolding unf by simp
  next
    case rp
    with acc have a: "inn = 0" "\<not> level \<le> 0" "check_loop s (i + 1) inn (level - 1) = Inr 1"
      by (auto split: if_splits)
    from rp inv have "check_loop_pwdgen s (i + 1) inn (level - 1) = Inr 1"
      by (intro step a) (simp_all add: in_class_step)
    with rp a show ?thesis unfolding unf by simp
  next
    case dash
    with acc nb1 have a: "i \<noteq> 0"
      "\<not> (inn \<noteq> 0 \<and> (at s (i - 1) = 91 \<and> i \<ge> 2 \<and> at s (i - 2) \<noteq> 92 \<or> at s (i + 1) = 93))"
      "\<not> at s (i + 1) < at s (i - 1)"
      "check_loop s (i + 1) inn level = Inr 1"
      by (auto split: if_splits)
    from dash inv have r: "check_loop_pwdgen s (i + 1) inn level = Inr 1"
      by (intro step a) (simp_all add: in_class_step)
    have "at s (i - 1) \<noteq> 91"
    proof
      assume b: "at s (i - 1) = 91"
      show False
      proof (cases "i \<ge> 2")
        case True
        with a(2) b nb2 have "inn = 0" by auto
        with inv have "\<not> in_class s i" by (auto split: if_splits)
        moreover from a(1) b have "in_class s i" by (cases i) auto
        ultimately show False by simp
      next
        case False
        with a(1) have "i = 1" by simp
        with b dash ns show False by simp
      qed
    qed
    with dash a r show ?thesis unfolding unf by auto
  next
    case other
    with acc nb0 have a: "check_loop s (i + 1) inn level = Inr 1"
      by (auto split: if_splits)
    from other inv have "check_loop_pwdgen s (i + 1) inn level = Inr 1"
      by (intro step a) (simp_all add: in_class_step)
    with other show ?thesis unfolding unf by auto
  qed
qed

lemma pwdgen_accepted_check:
  assumes nb: "\<forall>i. at s i \<noteq> 92"
    and ne: "\<forall>i. 0 < i \<longrightarrow> \<not> (at s i = 91 \<and> at s (i + 1) = 93)"
    and nd: "\<forall>i. at s i = 45 \<and> \<not> in_class s i \<longrightarrow> 0 < i \<and> at s (i - 1) \<le> at s (i + 1)"
  shows "inn = (if in_class s i then 1 else 0) \<Longrightarrow> check_loop_pwdgen s i inn level = Inr 1 \<Longrightarrow>
         check_loop s i inn level = Inr 1"
proof (induction "length s - i" arbitrary: i inn level rule: less_induct)
  case less
  note inv = less.prems(1)
  note acc = less.prems(2) [unfolded check_loop_pwdgen.simps [of s i inn level]]
  have step: "check_loop s (i + 1) inn' level' = Inr 1"
    if "at s i \<noteq> 0" "inn' = (if in_class s (i + 1) then 1 else 0)"
       "check_loop_pwdgen s (i + 1) inn' level' = Inr 1" for inn' level'
  proof -
    from that(1) have "i < length s" by (rule at_nonzero)
    then have "length s - (i + 1) < length s - i" by simp
    from less.hyps [OF this that(2) that(3)] show ?thesis .
  qed
  have nb0: "at s i \<noteq> 92" and nb1: "at s (i + 1) \<noteq> 92" and nb2: "at s (i - 2) \<noteq> 92"
    using nb by auto
  note unf = check_loop.simps [of s i inn level]
  consider (stop) "at s i = 0" | (bad) "at s i \<noteq> 0" "at s i < 33 \<or> at s i > 126"
    | (opn) "at s i = 91" | (cls) "at s i = 93" | (lp) "at s i = 40" | (rp) "at s i = 41"
    | (dash) "at s i = 45"
    | (other) "at s i \<noteq> 0" "33 \<le> at s i" "at s i \<le> 126" "at s i \<noteq> 91" "at s i \<noteq> 93"
        "at s i \<noteq> 40" "at s i \<noteq> 41" "at s i \<noteq> 45"
    by (cases "at s i = 0 \<or> at s i < 33 \<or> at s i > 126") auto
  then show ?case
  proof cases
    case stop
    with acc show ?thesis unfolding unf by simp
  next
    case bad
    with acc show ?thesis by simp
  next
    case opn
    with acc have a: "inn = 0" "check_loop_pwdgen s (i + 1) 1 level = Inr 1"
      by (auto split: if_splits)
    from opn have "check_loop s (i + 1) 1 level = Inr 1"
      by (intro step a) (simp_all add: in_class_step)
    with opn a show ?thesis unfolding unf by simp
  next
    case cls
    with acc have a: "inn = 1" "i \<noteq> 0" "at s (i - 1) \<noteq> 93"
      "check_loop_pwdgen s (i + 1) 0 level = Inr 1"
      by (auto split: if_splits)
    from cls have r: "check_loop s (i + 1) 0 level = Inr 1"
      by (intro step a) (simp_all add: in_class_step)
    have "\<not> (at s (i - 1) = 91 \<and> i \<ge> 2)"
      using ne [rule_format, of "i - 1"] cls by auto
    with cls a r show ?thesis unfolding unf by auto
  next
    case lp
    with acc have a: "inn \<noteq> 1" "check_loop_pwdgen s (i + 1) inn (level + 1) = Inr 1"
      by (auto split: if_splits)
    from a inv have z: "inn = 0" by (auto split: if_splits)
    from lp inv have "check_loop s (i + 1) inn (level + 1) = Inr 1"
      by (intro step a) (simp_all add: in_class_step)
    with lp z show ?thesis unfolding unf by simp
  next
    case rp
    with acc have a: "inn = 0" "\<not> level \<le> 0" "check_loop_pwdgen s (i + 1) inn (level - 1) = Inr 1"
      by (auto split: if_splits)
    from rp inv have "check_loop s (i + 1) inn (level - 1) = Inr 1"
      by (intro step a) (simp_all add: in_class_step)
    with rp a show ?thesis unfolding unf by simp
  next
    case dash
    show ?thesis
    proof (cases "inn = 0")
      case True
      with dash acc have a: "check_loop_pwdgen s (i + 1) inn level = Inr 1" by simp
      from dash inv have r: "check_loop s (i + 1) inn level = Inr 1"
        by (intro step a) (simp_all add: in_class_step)
      from True inv have "\<not> in_class s i" by (auto split: if_splits)
      with nd [rule_format, of i] dash have "0 < i" "at s (i - 1) \<le> at s (i + 1)" by auto
      with dash True nb1 r show ?thesis unfolding unf by simp
    next
      case False
      with dash acc have a: "i \<noteq> 0" "at s (i - 1) \<noteq> 91" "at s (i + 1) \<noteq> 93"
        "\<not> at s (i + 1) < at s (i - 1)" "check_loop_pwdgen s (i + 1) inn level = Inr 1"
        by (auto split: if_splits)
      from dash inv have r: "check_loop s (i + 1) inn level = Inr 1"
        by (intro step a) (simp_all add: in_class_step)
      with dash False a nb1 show ?thesis unfolding unf by simp
    qed
  next
    case other
    with acc have a: "check_loop_pwdgen s (i + 1) inn level = Inr 1"
      by (auto split: if_splits)
    from other inv have "check_loop s (i + 1) inn level = Inr 1"
      by (intro step a) (simp_all add: in_class_step)
    with other nb0 show ?thesis unfolding unf by auto
  qed
qed

lemma of_char_backslash: "(of_char c = (92::nat)) = (c = CHR 0x5C)"
proof -
  have "(of_char c = (of_char (CHR 0x5C) :: nat)) = (c = CHR 0x5C)" by (rule of_char_eq_iff)
  then show ?thesis by simp
qed

lemma no_backslash_at: "no_backslash s \<Longrightarrow> at s i \<noteq> 92"
proof (cases "i < length s")
  case True
  assume "no_backslash s"
  with nth_mem [OF True] have "s ! i \<noteq> CHR 0x5C" by (auto simp: no_backslash_def)
  with True show ?thesis by (simp add: at_def of_char_backslash)
next
  case False
  then show ?thesis by (simp add: at_def)
qed

lemma no_empty_class_inside_at:
  "\<not> empty_class_inside s \<Longrightarrow> 0 < i \<Longrightarrow> \<not> (at s i = 91 \<and> at s (i + 1) = 93)"
  by (cases "i < length s") (auto simp: empty_class_inside_def at_def)

lemma no_dash_outside_unordered_at:
  "\<not> dash_outside_unordered s \<Longrightarrow> at s i = 45 \<Longrightarrow> \<not> in_class s i \<Longrightarrow>
     0 < i \<and> at s (i - 1) \<le> at s (i + 1)"
  by (cases "i < length s") (auto simp: dash_outside_unordered_def at_def)

lemma pwdgen_rejects_class_dash_first: "class_dash_first s \<Longrightarrow> check_pwdgen s = Inr 0"
  by (simp add: class_dash_first_def check_pwdgen_def check_loop_pwdgen.simps [of s 0]
      check_loop_pwdgen.simps [of s "Suc 0"])

text \<open>
  The converse: a pattern of one of the excepted shapes is not accepted by the other
  validator. A pattern is a C string, so no byte of it is NUL.
\<close>

lemma check_accepted_step:
  assumes nb: "\<forall>i. at s i \<noteq> 92"
    and inv: "inn = (if in_class s i then 1 else 0)"
    and acc: "check_loop s i inn level = Inr 1"
    and nz: "at s i \<noteq> 0"
  shows "(\<exists>level'. check_loop s (i + 1) (if in_class s (i + 1) then 1 else 0) level' = Inr 1) \<and>
         \<not> (at s i = 93 \<and> 2 \<le> i \<and> at s (i - 1) = 91) \<and>
         (at s i = 45 \<and> \<not> in_class s i \<longrightarrow> 0 < i \<and> at s (i - 1) \<le> at s (i + 1))"
proof -
  note acc' = acc [unfolded check_loop.simps [of s i inn level]]
  have nb0: "at s i \<noteq> 92" and nb1: "at s (i + 1) \<noteq> 92" and nb2: "at s (i - 2) \<noteq> 92"
    using nb by auto
  consider (bad) "at s i < 33 \<or> at s i > 126"
    | (opn) "at s i = 91" | (cls) "at s i = 93" | (lp) "at s i = 40" | (rp) "at s i = 41"
    | (dash) "at s i = 45"
    | (other) "33 \<le> at s i" "at s i \<le> 126" "at s i \<noteq> 91" "at s i \<noteq> 93"
        "at s i \<noteq> 40" "at s i \<noteq> 41" "at s i \<noteq> 45"
    by (cases "at s i < 33 \<or> at s i > 126") auto
  then show ?thesis
  proof cases
    case bad
    with acc' nz show ?thesis by simp
  next
    case opn
    with acc' have "check_loop s (i + 1) 1 level = Inr 1" by (auto split: if_splits)
    with opn show ?thesis by (auto simp: in_class_step)
  next
    case cls
    with acc' have a: "inn \<noteq> 0" "i \<noteq> 0"
      "\<not> (at s (i - 1) = 91 \<and> i \<ge> 2 \<and> at s (i - 2) \<noteq> 92)"
      "check_loop s (i + 1) 0 level = Inr 1"
      by (auto split: if_splits)
    with cls nb2 show ?thesis by (auto simp: in_class_step)
  next
    case lp
    with acc' have "inn = 0" "check_loop s (i + 1) inn (level + 1) = Inr 1"
      by (auto split: if_splits)
    with lp inv show ?thesis by (auto simp: in_class_step split: if_splits)
  next
    case rp
    with acc' have "inn = 0" "check_loop s (i + 1) inn (level - 1) = Inr 1"
      by (auto split: if_splits)
    with rp inv show ?thesis by (auto simp: in_class_step split: if_splits)
  next
    case dash
    with acc' nb1 have a: "i \<noteq> 0" "\<not> at s (i + 1) < at s (i - 1)"
      "check_loop s (i + 1) inn level = Inr 1"
      by (auto split: if_splits)
    with dash inv show ?thesis by (auto simp: in_class_step split: if_splits)
  next
    case other
    with acc' nz nb0 have "check_loop s (i + 1) inn level = Inr 1" by (auto split: if_splits)
    with other inv show ?thesis by (auto simp: in_class_step split: if_splits)
  qed
qed

lemma check_accepted_shape:
  assumes nb: "\<forall>i. at s i \<noteq> 92"
    and nul: "\<forall>i<length s. at s i \<noteq> 0"
  shows "inn = (if in_class s i then 1 else 0) \<Longrightarrow> check_loop s i inn level = Inr 1 \<Longrightarrow>
         i \<le> j \<Longrightarrow>
         \<not> (at s j = 93 \<and> 2 \<le> j \<and> at s (j - 1) = 91) \<and>
         (at s j = 45 \<and> \<not> in_class s j \<longrightarrow> 0 < j \<and> at s (j - 1) \<le> at s (j + 1))"
proof (induction "j - i" arbitrary: i inn level)
  case 0
  then have ij: "j = i" by simp
  show ?case
  proof (cases "at s i = 0")
    case True
    with ij show ?thesis by simp
  next
    case False
    from check_accepted_step [OF nb "0.prems"(1) "0.prems"(2) False] ij show ?thesis by simp
  qed
next
  case (Suc d)
  show ?case
  proof (cases "at s i = 0")
    case True
    with nul have "length s \<le> i" by (meson not_le)
    with Suc.prems(3) have "at s j = 0" by (simp add: at_def)
    then show ?thesis by simp
  next
    case False
    from check_accepted_step [OF nb Suc.prems(1) Suc.prems(2) False] obtain level' where
      r: "check_loop s (i + 1) (if in_class s (i + 1) then 1 else 0) level' = Inr 1" by blast
    from Suc.hyps(2) have d: "d = j - (i + 1)" and le: "i + 1 \<le> j" by simp_all
    from Suc.hyps(1) [OF d refl r le] show ?thesis .
  qed
qed

lemma check_accepted_no_shapes:
  assumes "no_backslash s" and "check s = Inr 1" and nul: "\<forall>i<length s. at s i \<noteq> 0"
  shows "\<not> empty_class_inside s \<and> \<not> dash_outside_unordered s"
proof -
  from assms(1) have nb: "\<forall>i. at s i \<noteq> 92" by (simp add: no_backslash_at)
  have sh: "\<not> (at s j = 93 \<and> 2 \<le> j \<and> at s (j - 1) = 91) \<and>
         (at s j = 45 \<and> \<not> in_class s j \<longrightarrow> 0 < j \<and> at s (j - 1) \<le> at s (j + 1))" for j
    using check_accepted_shape [OF nb nul, of 0 0 0 j] assms(2) by (simp add: check_def)
  have "\<not> empty_class_inside s"
  proof
    assume "empty_class_inside s"
    then obtain i where "1 \<le> i" "at s i = 91" "at s (i + 1) = 93"
      by (auto simp: empty_class_inside_def)
    with sh [of "i + 1"] show False by simp
  qed
  moreover have "\<not> dash_outside_unordered s"
  proof
    assume "dash_outside_unordered s"
    then obtain i where "at s i = 45" "\<not> in_class s i" "i = 0 \<or> at s (i + 1) < at s (i - 1)"
      by (auto simp: dash_outside_unordered_def)
    with sh [of i] show False by auto
  qed
  ultimately show ?thesis ..
qed

lemma excluded_patterns_differ:
  "(class_dash_first s \<longrightarrow> check_pwdgen s \<noteq> Inr 1) \<and>
   (no_backslash s \<and> (\<forall>i<length s. at s i \<noteq> 0) \<and>
    (empty_class_inside s \<or> dash_outside_unordered s) \<longrightarrow> check s \<noteq> Inr 1)"
  using check_accepted_no_shapes [of s] pwdgen_rejects_class_dash_first [of s] by auto

lemma in_class_numeral [simp]: "in_class s (numeral k) = in_class s (Suc (pred_numeral k))"
  by (simp add: numeral_eq_Suc)

subsection \<open>Groups\<close>

lemma gen_loop_close_first:
  assumes "at s j = 41" "at s (j + 1) = 42" "48 < at s (j + 2)" "at s (j + 2) \<le> 57"
  shows "gen_loop (Suc n) rnd s origin j t 0 ipt_exit x =
     (if t + 1 < to_int (fst (strtol s (j + 2)))
      then gen_loop n rnd s origin origin (t + 1) (to_int (fst (strtol s (j + 2))))
             (Some (snd (strtol s (j + 2)))) x
      else Some (Inr (int (snd (strtol s (j + 2))) - int origin - 1, x)))"
  using assms at_nonzero [of s j] by simp

lemma gen_loop_close_again:
  assumes "at s j = 41" "time \<noteq> 0"
  shows "gen_loop (Suc n) rnd s origin j t time (Some e) x =
     (if t + 1 < time then gen_loop n rnd s origin origin (t + 1) time (Some e) x
      else Some (Inr (int e - int origin - 1, x)))"
  using assms at_nonzero [of s j] by simp

lemma group_repeats:
  assumes cl: "at s j = 41" "at s (j + 1) = 42" "48 < at s (j + 2)" "at s (j + 2) \<le> 57"
    and n: "fst (strtol s (j + 2)) = n" "n < 2 ^ 31"
    and pass: "\<And>t time ipt_exit y r.
       returns rnd s origin j t time ipt_exit (B y) r \<Longrightarrow>
       returns rnd s origin origin t time ipt_exit y r"
  shows "returns rnd s origin origin 0 0 None x
           (Inr (int (snd (strtol s (j + 2))) - int origin - 1, (B ^^ n) x))"
proof -
  let ?e = "snd (strtol s (j + 2))"
  let ?r = "\<lambda>y. Inr (int ?e - int origin - 1, y)"
  have pos: "0 < n" using strtol_pos [of s "j + 2"] cl n by simp
  have ti: "to_int n = int n" using n by (simp add: to_int_small)
  have again: "returns rnd s origin j t (int n) (Some ?e) y (?r ((B ^^ m) y))"
    if "t + 1 + int m = int n" "0 \<le> t" for t m y
    using that
  proof (induction m arbitrary: t y)
    case 0
    then have "gen_loop (Suc 0) rnd s origin j t (int n) (Some ?e) y = Some (?r y)"
      using pos cl(1) by (subst gen_loop_close_again) simp_all
    then show ?case unfolding returns_def
      by (intro exI [of _ "Suc 0"]) (simp del: gen_loop.simps)
  next
    case (Suc m)
    from Suc.prems have "returns rnd s origin j (t + 1) (int n) (Some ?e) (B y) (?r ((B ^^ m) (B y)))"
      by (intro Suc.IH) simp_all
    from pass [OF this] obtain f where
      "gen_loop f rnd s origin origin (t + 1) (int n) (Some ?e) y = Some (?r ((B ^^ m) (B y)))"
      unfolding returns_def by auto
    then have "gen_loop (Suc f) rnd s origin j t (int n) (Some ?e) y = Some (?r ((B ^^ Suc m) y))"
      using pos cl(1) Suc.prems by (subst gen_loop_close_again) (simp_all add: funpow_swap1)
    then show ?case unfolding returns_def by blast
  qed
  have first: "returns rnd s origin j 0 0 None (B x) (?r ((B ^^ n) x))"
  proof (cases "n = 1")
    case True
    then have "gen_loop (Suc 0) rnd s origin j 0 0 None (B x) = Some (?r ((B ^^ n) x))"
      using cl n ti by (subst gen_loop_close_first) simp_all
    then show ?thesis unfolding returns_def by blast
  next
    case False
    with pos have "2 \<le> n" by simp
    then obtain m where m: "n = Suc (Suc m)" by (auto simp add: le_iff_add numeral_2_eq_2)
    have "returns rnd s origin j 1 (int n) (Some ?e) (B (B x)) (?r ((B ^^ m) (B (B x))))"
      using m by (intro again) simp_all
    from pass [OF this] obtain f where
      "gen_loop f rnd s origin origin 1 (int n) (Some ?e) (B x) = Some (?r ((B ^^ m) (B (B x))))"
      unfolding returns_def by auto
    then have "gen_loop (Suc f) rnd s origin j 0 0 None (B x) = Some (?r ((B ^^ n) x))"
      using cl n ti m by (subst gen_loop_close_first) (simp_all add: funpow_swap1)
    then show ?thesis unfolding returns_def by blast
  qed
  from pass [OF first] show ?thesis .
qed

lemma gen_loop_mono:
  "gen_loop f rnd s origin i t time ipt_exit x = Some r \<Longrightarrow>
   gen_loop (Suc f) rnd s origin i t time ipt_exit x = Some r"
proof (induction f arbitrary: origin i t time ipt_exit x r)
  case 0
  then show ?case by simp
next
  case (Suc f)
  note IH = Suc.IH
  note goal = gen_loop.simps(2) [of "Suc f" rnd s origin i t time ipt_exit x]
  note prem = Suc.prems [unfolded gen_loop.simps(2) [of f rnd s origin i t time ipt_exit x]]
  consider (oob) "i > length s" | (nul) "i \<le> length s" "at s i = 0"
    | (lp) "i \<le> length s" "at s i = 40"
    | (rp) "i \<le> length s" "at s i = 41"
    | (cls) "i \<le> length s" "at s i = 91"
    | (esc) "i \<le> length s" "at s i = 92"
    | (lit) "i \<le> length s" "at s i \<noteq> 0" "at s i \<noteq> 40" "at s i \<noteq> 41" "at s i \<noteq> 91" "at s i \<noteq> 92"
    by (cases "i > length s") auto
  then show ?case
  proof cases
    case oob
    with prem show ?thesis unfolding goal by (simp del: gen_loop.simps)
  next
    case nul
    with prem show ?thesis unfolding goal by (simp del: gen_loop.simps)
  next
    case lit
    with prem have "gen_loop f rnd s origin (i + 1) t time ipt_exit (putchar (at s i) x) = Some r"
      by (simp del: gen_loop.simps)
    from IH [OF this] lit show ?thesis unfolding goal by (simp del: gen_loop.simps)
  next
    case esc
    with prem have "gen_loop f rnd s origin (i + 2) t time ipt_exit (putchar (at s (i + 1)) x) = Some r"
      by (simp del: gen_loop.simps)
    from IH [OF this] esc show ?thesis unfolding goal by (simp del: gen_loop.simps)
  next
    case cls
    show ?thesis
    proof (cases "randchar rnd s (i + 1) x")
      case (Inl e)
      with prem cls show ?thesis unfolding goal by (auto simp del: gen_loop.simps)
    next
      case (Inr v)
      obtain r1 x1 where v: "v = (r1, x1)" by (cases v)
      show ?thesis
      proof (cases "int (i + 1) + r1 + 1 < 0")
        case True
        with prem cls Inr v show ?thesis unfolding goal by (auto simp del: gen_loop.simps)
      next
        case False
        with prem cls Inr v
        have "gen_loop f rnd s origin (nat (int (i + 1) + r1 + 1)) t time ipt_exit x1 = Some r"
          by (simp del: gen_loop.simps)
        from IH [OF this] cls Inr v False show ?thesis unfolding goal by (simp del: gen_loop.simps)
      qed
    qed
  next
    case lp
    from prem lp obtain v where n: "gen_loop f rnd s (i + 1) (i + 1) 0 0 None x = Some v"
      by (cases "gen_loop f rnd s (i + 1) (i + 1) 0 0 None x") (simp_all del: gen_loop.simps)
    note n' = IH [OF n]
    show ?thesis
    proof (cases v)
      case (Inl e)
      with prem lp n n' show ?thesis unfolding goal by (auto simp del: gen_loop.simps)
    next
      case (Inr w)
      obtain r1 x1 where w: "w = (r1, x1)" by (cases w)
      show ?thesis
      proof (cases "int (i + 1) + r1 + 1 < 0")
        case True
        with prem lp n n' Inr w show ?thesis unfolding goal by (auto simp del: gen_loop.simps)
      next
        case False
        with prem lp n Inr w
        have "gen_loop f rnd s origin (nat (int (i + 1) + r1 + 1)) t time ipt_exit x1 = Some r"
          by (simp del: gen_loop.simps)
        from IH [OF this] lp n' Inr w False show ?thesis unfolding goal by (simp del: gen_loop.simps)
      qed
    qed
  next
    case rp
    let ?suffix = "at s (i + 1) = 42 \<and> 48 < at s (i + 2) \<and> at s (i + 2) \<le> 57"
    let ?n = "to_int (fst (strtol s (i + 2)))"
    consider (first) "time = 0" "?suffix" "t + 1 < ?n"
      | (last) "time = 0" "?suffix" "\<not> t + 1 < ?n"
      | (once) "time = 0" "\<not> ?suffix"
      | (again) "time \<noteq> 0" "t + 1 < time"
      | (fin) "time \<noteq> 0" "\<not> t + 1 < time"
      by (cases "time = 0"; cases "?suffix"; cases "t + 1 < ?n"; cases "t + 1 < time") simp_all
    then show ?thesis
    proof cases
      case first
      with prem rp
      have "gen_loop f rnd s origin origin (t + 1) ?n (Some (snd (strtol s (i + 2)))) x = Some r"
        by (simp del: gen_loop.simps)
      from IH [OF this] rp first show ?thesis unfolding goal by (simp del: gen_loop.simps)
    next
      case again
      with prem rp have "gen_loop f rnd s origin origin (t + 1) time ipt_exit x = Some r"
        by (simp del: gen_loop.simps)
      from IH [OF this] rp again show ?thesis unfolding goal by (simp del: gen_loop.simps)
    next
      case last
      with prem rp show ?thesis unfolding goal by (simp del: gen_loop.simps)
    next
      case once
      with prem rp show ?thesis unfolding goal by (auto simp del: gen_loop.simps)
    next
      case fin
      with prem rp show ?thesis unfolding goal by (simp del: gen_loop.simps)
    qed
  qed
qed


lemma gen_loop_mono_le:
  assumes "gen_loop f rnd s origin i t time ipt_exit x = Some r"
  shows "gen_loop (f + k) rnd s origin i t time ipt_exit x = Some r"
  using assms by (induction k) (simp_all add: gen_loop_mono del: gen_loop.simps)

lemma returns_enough_fuel:
  "returns rnd s origin i t time ipt_exit x r \<longleftrightarrow>
   (\<exists>f0. \<forall>f\<ge>f0. gen_loop f rnd s origin i t time ipt_exit x = Some r)"
proof
  assume "returns rnd s origin i t time ipt_exit x r"
  then obtain f0 where "gen_loop f0 rnd s origin i t time ipt_exit x = Some r"
    unfolding returns_def by blast
  then have "gen_loop f rnd s origin i t time ipt_exit x = Some r" if "f0 \<le> f" for f
    using gen_loop_mono_le [of f0 rnd s origin i t time ipt_exit x r "f - f0"] that by simp
  then show "\<exists>f0. \<forall>f\<ge>f0. gen_loop f rnd s origin i t time ipt_exit x = Some r" by blast
next
  assume "\<exists>f0. \<forall>f\<ge>f0. gen_loop f rnd s origin i t time ipt_exit x = Some r"
  then show "returns rnd s origin i t time ipt_exit x r" unfolding returns_def by blast
qed

lemma letters_nth:
  "65 \<le> ([65..<91] @ [97..<123]) ! (r mod 52) \<and> ([65..<91] @ [97..<123]) ! (r mod 52) \<le> 90 \<or>
   97 \<le> ([65..<91] @ [97..<123]) ! (r mod 52) \<and> ([65..<91] @ [97..<123]) ! (r mod 52) \<le> (122::nat)"
proof -
  have "r mod 52 < length ([65..<91] @ [97..<123])" by simp
  then have "([65..<91] @ [97..<123]) ! (r mod 52) \<in> set ([65..<91] @ [97..<123])"
    by (rule nth_mem)
  then show ?thesis by (simp only: set_append set_upt) auto
qed

lemma digits_nth: "48 \<le> [48..<58] ! (r mod 10) \<and> [48..<58] ! (r mod 10) \<le> (57::nat)"
proof -
  have "r mod 10 < length [48..<58]" by simp
  then have "[48..<58] ! (r mod 10) \<in> set [48..<58]" by (rule nth_mem)
  then show ?thesis by (simp only: set_upt) auto
qed

lemma randchar_letters:
  "randchar rnd ''([A-Za-z][0-9])*3'' 2 y =
     Inr (6, y\<lparr>out := out y @ [([65..<91] @ [97..<123]) ! (rnd (drawn y) mod 52)],
              drawn := drawn y + 1\<rparr>)"
  using randchar_class_plain [OF class_at_letters, of rnd y] by (simp add: at_def del: upt_rec_numeral)

lemma randchar_digits:
  "randchar rnd ''([A-Za-z][0-9])*3'' 10 y =
     Inr (3, y\<lparr>out := out y @ [[48..<58] ! (rnd (drawn y) mod 10)], drawn := drawn y + 1\<rparr>)"
  using randchar_class_plain [OF class_at_digits, of rnd y] by (simp add: at_def del: upt_rec_numeral)

lemma group_body_pass:
  "gen_loop (Suc (Suc f)) rnd ''([A-Za-z][0-9])*3'' (Suc 0) (Suc 0) t time ipt_exit y =
   gen_loop f rnd ''([A-Za-z][0-9])*3'' (Suc 0) 14 t time ipt_exit (letter_digit rnd y)"
proof -
  have rl: "randchar rnd ''([A-Za-z][0-9])*3'' (Suc (Suc 0)) z =
     Inr (6, z\<lparr>out := out z @ [([65..<91] @ [97..<123]) ! (rnd (drawn z) mod 52)],
              drawn := drawn z + 1\<rparr>)" for z
    using randchar_letters [of rnd z] by (simp only: numeral_2_eq_2)
  have 1: "gen_loop (Suc (Suc f)) rnd ''([A-Za-z][0-9])*3'' (Suc 0) (Suc 0) t time ipt_exit y =
      gen_loop (Suc f) rnd ''([A-Za-z][0-9])*3'' (Suc 0) 9 t time ipt_exit
        (y\<lparr>out := out y @ [([65..<91] @ [97..<123]) ! (rnd (drawn y) mod 52)],
              drawn := drawn y + 1\<rparr>)"
    by (subst gen_loop.simps) (simp add: at_def rl del: upt_rec_numeral gen_loop.simps)
  have 2: "gen_loop (Suc f) rnd ''([A-Za-z][0-9])*3'' (Suc 0) 9 t time ipt_exit z =
      gen_loop f rnd ''([A-Za-z][0-9])*3'' (Suc 0) 14 t time ipt_exit
        (z\<lparr>out := out z @ [[48..<58] ! (rnd (drawn z) mod 10)], drawn := drawn z + 1\<rparr>)" for z
    by (subst gen_loop.simps) (simp add: at_def randchar_digits del: upt_rec_numeral gen_loop.simps)
  show ?thesis by (simp add: 1 2 letter_digit_def del: upt_rec_numeral gen_loop.simps)
qed

lemma strtol_group: "strtol ''([A-Za-z][0-9])*3'' 16 = (3, 17)"
  by (simp add: strtol_def digit_run_def)

lemma group_close:
  "gen_loop (Suc n) rnd ''([A-Za-z][0-9])*3'' (Suc 0) 14 0 0 None z =
     gen_loop n rnd ''([A-Za-z][0-9])*3'' (Suc 0) (Suc 0) 1 3 (Some 17) z"
  "gen_loop (Suc n) rnd ''([A-Za-z][0-9])*3'' (Suc 0) 14 1 3 (Some 17) z =
     gen_loop n rnd ''([A-Za-z][0-9])*3'' (Suc 0) (Suc 0) 2 3 (Some 17) z"
  "gen_loop (Suc n) rnd ''([A-Za-z][0-9])*3'' (Suc 0) 14 2 3 (Some 17) z = Some (Inr (15, z))"
  by (subst gen_loop.simps, simp add: at_def strtol_group to_int_def del: gen_loop.simps)+

lemma generate_group:
  "generate (Suc (Suc (Suc (Suc (Suc (Suc (Suc (Suc (Suc (Suc f)))))))))) rnd ''([A-Za-z][0-9])*3'' 0 x =
     Some (Inr (17, letter_digit rnd (letter_digit rnd (letter_digit rnd x))))"
proof -
  let ?p = "''([A-Za-z][0-9])*3''"
  have nested: "gen_loop (Suc (Suc (Suc (Suc (Suc (Suc (Suc (Suc (Suc f))))))))) rnd ?p (Suc 0) (Suc 0) 0 0 None x =
     Some (Inr (15, letter_digit rnd (letter_digit rnd (letter_digit rnd x))))"
    by (simp only: group_body_pass group_close)
  show ?thesis
    unfolding generate_def
    by (subst gen_loop.simps) (simp add: at_def nested del: gen_loop.simps, simp add: at_def)
qed

lemma letter_digit_thrice:
  "\<exists>c0 c1 c2 c3 c4 c5.
     letter_digit rnd (letter_digit rnd (letter_digit rnd x)) =
       x\<lparr>out := out x @ [c0, c1, c2, c3, c4, c5], drawn := drawn x + 6\<rparr> \<and>
     (65 \<le> c0 \<and> c0 \<le> 90 \<or> 97 \<le> c0 \<and> c0 \<le> 122) \<and> 48 \<le> c1 \<and> c1 \<le> 57 \<and>
     (65 \<le> c2 \<and> c2 \<le> 90 \<or> 97 \<le> c2 \<and> c2 \<le> 122) \<and> 48 \<le> c3 \<and> c3 \<le> 57 \<and>
     (65 \<le> c4 \<and> c4 \<le> 90 \<or> 97 \<le> c4 \<and> c4 \<le> 122) \<and> 48 \<le> c5 \<and> c5 \<le> 57"
proof -
  let ?L = "\<lambda>k. ([65..<91] @ [97..<123]) ! (rnd (drawn x + k) mod 52)"
  let ?D = "\<lambda>k. [48..<58] ! (rnd (drawn x + k) mod 10)"
  have e: "letter_digit rnd (letter_digit rnd (letter_digit rnd x)) =
       x\<lparr>out := out x @ [?L 0, ?D 1, ?L 2, ?D 3, ?L 4, ?D 5], drawn := drawn x + 6\<rparr>"
  proof -
    have s: "n + 3 = Suc (Suc (Suc n))" "n + 4 = Suc (Suc (Suc (Suc n)))"
      "n + 5 = Suc (Suc (Suc (Suc (Suc n))))" "n + 6 = Suc (Suc (Suc (Suc (Suc (Suc n)))))"
      for n :: nat by simp_all
    show ?thesis by (simp add: letter_digit_def s del: upt_rec_numeral)
  qed
  show ?thesis
    apply (rule exI [of _ "?L 0"], rule exI [of _ "?D 1"], rule exI [of _ "?L 2"])
    apply (rule exI [of _ "?D 3"], rule exI [of _ "?L 4"], rule exI [of _ "?D 5"])
    apply (intro conjI)
              apply (rule e)
             apply (rule letters_nth digits_nth [THEN conjunct1] digits_nth [THEN conjunct2])+
    done
qed

lemma letter_digit_123:
  "(letter_digit (\<lambda>k. k) ^^ 3) \<lparr>out = [], drawn = 0\<rparr> = \<lparr>out = [65, 49, 67, 51, 69, 53], drawn = 6\<rparr>"
  by code_simp


section \<open>Properties\<close>

subsection \<open>Empty classes\<close>

text \<open>
  C1 (the validator rejects every pattern with an empty character class, so the draw never
  divides by zero; \<open>check\<close> returns 0 on \<^verbatim>\<open>[]\<close>). The code does not: at index 1 the guard
  \<^verbatim>\<open>ipt - ipt_origin >= 2\<close> is false, \<open>check\<close> returns 1 on the pattern \<^verbatim>\<open>[]\<close>, and
  \<open>generate\<close> then divides by \<^verbatim>\<open>len = 0\<close> in \<open>randchar\<close>. One position later the same
  empty class is rejected.
\<close>

theorem check_accepts_leading_empty_class:
  "check ''[]'' = Inr 1 \<and> check ''a[]'' = Inr 0 \<and>
   generate (Suc fuel) rnd ''[]'' 0 x = Some (Inl DivByZero)"
  by (simp add: check_def check_loop.simps generate_def at_def randchar_def scan_class.simps
      draw_def)

subsection \<open>A dash outside a class\<close>

text \<open>
  C3 (a \<^verbatim>\<open>-\<close> outside any class imposes no constraint; \<^verbatim>\<open>a-b\<close> and \<^verbatim>\<open>b-a\<close> are both
  accepted). In \<^verbatim>\<open>src/unnamed/part_000\<close> the comparison of the two neighbours of \<^verbatim>\<open>-\<close> is
  made outside the test of \<^verbatim>\<open>in\<close>: \<^verbatim>\<open>a-b\<close> is accepted and \<^verbatim>\<open>b-a\<close> is rejected. The
  validator of \<^verbatim>\<open>src/pwdgen.c\<close> accepts both.
\<close>

theorem check_rejects_descending_dash_outside_class:
  "check ''a-b'' = Inr 1 \<and> check ''b-a'' = Inr 0 \<and>
   check_pwdgen ''a-b'' = Inr 1 \<and> check_pwdgen ''b-a'' = Inr 1"
  by (simp add: check_def check_loop.simps check_pwdgen_def check_loop_pwdgen.simps at_def)

subsection \<open>Ranges\<close>

text \<open>
  C4 (inside a class a descending range is rejected and a degenerate one is accepted:
  \<open>check\<close> returns 0 on \<^verbatim>\<open>[b-a]\<close>, accepts \<^verbatim>\<open>[a-a]\<close>, and every password generated from
  \<^verbatim>\<open>[a-a]\<close> is the single character \<^verbatim>\<open>a\<close>). For a class made of one range between two
  plain bytes, \<open>check\<close> returns 0 exactly when the end is below the start; for equal
  ends \<open>generate\<close> writes that byte, whatever the random source; \<open>main\<close> adds the newline.
\<close>

theorem degenerate_and_descending_range:
  "(plain a \<and> plain b \<longrightarrow>
      check [CHR ''['', a, CHR ''-'', b, CHR '']''] =
        Inr (if of_char b < (of_char a :: nat) then 0 else 1)) \<and>
   (plain a \<longrightarrow>
      generate (Suc (Suc fuel)) rnd [CHR ''['', a, CHR ''-'', a, CHR '']''] 0 x =
        Some (Inr (5, x\<lparr>out := out x @ [of_char a], drawn := drawn x + 1\<rparr>))) \<and>
   check ''[b-a]'' = Inr 0 \<and> check ''[a-a]'' = Inr 1 \<and>
   generate (Suc (Suc fuel)) rnd ''[a-a]'' 0 x =
     Some (Inr (5, x\<lparr>out := out x @ [97], drawn := drawn x + 1\<rparr>)) \<and>
   main (Suc (Suc fuel)) rnd True [OptP ''[a-a]''] x =
     Some (Inr (0, x\<lparr>out := out x @ [97, 10], drawn := drawn x + 1\<rparr>))"
proof -
  have g: "generate (Suc (Suc fuel)) rnd ''[a-a]'' 0 x =
     Some (Inr (5, x\<lparr>out := out x @ [97], drawn := drawn x + 1\<rparr>))"
    by (simp add: run_simps)
  have c: "check ''[b-a]'' = Inr 0" "check ''[a-a]'' = Inr 1"
    by (simp_all add: check_def check_loop.simps at_def)
  have m: "main (Suc (Suc fuel)) rnd True [OptP ''[a-a]''] x =
     Some (Inr (0, x\<lparr>out := out x @ [97, 10], drawn := drawn x + 1\<rparr>))"
    by (simp add: main_def c g putchar_def)
  show ?thesis using check_single_range generate_degenerate_range g c m by blast
qed

theorem degenerate_and_descending_range_witness:
  "plain CHR ''q'' \<and> plain CHR ''c'' \<and> check ''[q-c]'' = Inr 0 \<and> check ''[c-q]'' = Inr 1 \<and>
   generate 2 (\<lambda>k. k) ''[q-q]'' 0 \<lparr>out = [], drawn = 0\<rparr> =
     Some (Inr (5, \<lparr>out = [113], drawn = 1\<rparr>))"
  using degenerate_and_descending_range [of "CHR ''q''" "CHR ''c''" 0 "\<lambda>k. k" "\<lparr>out = [], drawn = 0\<rparr>"]
    degenerate_and_descending_range [of "CHR ''c''" "CHR ''q''" 0 "\<lambda>k. k" "\<lparr>out = [], drawn = 0\<rparr>"]
  by (simp add: plain_def numeral_2_eq_2)

text \<open>
  C5 (a range item \<^verbatim>\<open>A-B\<close> adds exactly the bytes with codes from \<open>A\<close> to \<open>B\<close>, both
  included). At a \<^verbatim>\<open>-\<close> \<open>randchar\<close> adds the codes strictly between the two ends, and each
  end is added by the iteration that reads it as an item. An end that is an unescaped \<^verbatim>\<open>-\<close>
  is read as the next range operator instead and is never added: \<open>check\<close> accepts
  \<^verbatim>\<open>[!--0]\<close>, whose working set is 33..44 and 46..48, without the end 45 of the range
  \<^verbatim>\<open>!--\<close>. The same class with the end escaped contains 45, and so does the working set
  that \<^verbatim>\<open>src/pwdgen.c\<close> builds for the same pattern.
\<close>

theorem range_end_dash_left_out:
  "check ''[!--0]'' = Inr 1 \<and>
   class_at ''[!--0]'' 1 =
     Inr ([33, 34, 35, 36, 37, 38, 39, 40, 41, 42, 43, 44, 46, 47, 48], 5) \<and>
   generate (Suc (Suc fuel)) rnd ''[!--0]'' 0 x =
     Some (Inr (6, x\<lparr>out := out x @
       [[33, 34, 35, 36, 37, 38, 39, 40, 41, 42, 43, 44, 46, 47, 48] ! (rnd (drawn x) mod 15)],
       drawn := drawn x + 1\<rparr>)) \<and>
   class_at [CHR ''['', CHR ''!'', CHR ''-'', CHR 0x5C, CHR ''-'', CHR ''0'', CHR '']''] 1 =
     Inr ([33, 34, 35, 36, 37, 38, 39, 40, 41, 42, 43, 44, 45, 48], 6) \<and>
   check_pwdgen ''[!--0]'' = Inr 1 \<and>
   class_at_pwdgen ''[!--0]'' 1 =
     Inr ([33, 34, 35, 36, 37, 38, 39, 40, 41, 42, 43, 44, 45, 48], 5)"
proof (intro conjI)
  show "check ''[!--0]'' = Inr 1"
    by (simp add: check_def check_loop.simps at_def)
  show "class_at ''[!--0]'' 1 =
     Inr ([33, 34, 35, 36, 37, 38, 39, 40, 41, 42, 43, 44, 46, 47, 48], 5)"
    by (simp add: class_at_dash_end)
  show "generate (Suc (Suc fuel)) rnd ''[!--0]'' 0 x =
     Some (Inr (6, x\<lparr>out := out x @
       [[33, 34, 35, 36, 37, 38, 39, 40, 41, 42, 43, 44, 46, 47, 48] ! (rnd (drawn x) mod 15)],
       drawn := drawn x + 1\<rparr>))"
    by (rule generate_dash_end)
  show "class_at [CHR ''['', CHR ''!'', CHR ''-'', CHR 0x5C, CHR ''-'', CHR ''0'', CHR '']''] 1 =
     Inr ([33, 34, 35, 36, 37, 38, 39, 40, 41, 42, 43, 44, 45, 48], 6)"
    by (simp add: class_at_escaped_dash_end)
  show "check_pwdgen ''[!--0]'' = Inr 1"
    by (simp add: check_pwdgen_def check_loop_pwdgen.simps at_def)
  show "class_at_pwdgen ''[!--0]'' 1 =
     Inr ([33, 34, 35, 36, 37, 38, 39, 40, 41, 42, 43, 44, 45, 48], 5)"
    by (simp add: class_at_pwdgen_dash_end)
qed

subsection \<open>The repetition count of a class\<close>

text \<open>
  C6, amended (a non-empty class followed by \<^verbatim>\<open>*N\<close> with \<open>N\<close> below \<open>2 ^ 31\<close> makes
  \<open>randchar\<close> write exactly \<open>N\<close> bytes of the working set, with one call of
  \<^verbatim>\<open>rand()\<close> each; without the suffix it writes exactly one; \<^verbatim>\<open>[a]*5\<close> yields
  \<^verbatim>\<open>aaaaa\<close>).
\<close>

theorem class_repetition_count:
  "(class_at s i = Inr (cs, j) \<and> cs \<noteq> [] \<and> at s (j + 1) = 42 \<and> 48 < at s (j + 2) \<and>
    at s (j + 2) \<le> 57 \<and> fst (strtol s (j + 2)) = n \<and> n < 2 ^ 31 \<longrightarrow>
      0 < n \<and>
      (\<exists>ds. randchar rnd s i x =
               Inr (int (snd (strtol s (j + 2))) - int i - 1,
                    x\<lparr>out := out x @ ds, drawn := drawn x + n\<rparr>) \<and>
             length ds = n \<and> set ds \<subseteq> set cs)) \<and>
   (class_at s i = Inr (cs, j) \<and> cs \<noteq> [] \<and>
    \<not> (at s (j + 1) = 42 \<and> 48 < at s (j + 2) \<and> at s (j + 2) \<le> 57) \<longrightarrow>
      (\<exists>c. c \<in> set cs \<and>
            randchar rnd s i x =
              Inr (int j - int i, x\<lparr>out := out x @ [c], drawn := drawn x + 1\<rparr>))) \<and>
   check ''[a]*5'' = Inr 1 \<and>
   generate (Suc (Suc fuel)) rnd ''[a]*5'' 0 x =
     Some (Inr (5, x\<lparr>out := out x @ [97, 97, 97, 97, 97], drawn := drawn x + 5\<rparr>))"
proof (intro conjI impI)
  assume h: "class_at s i = Inr (cs, j) \<and> cs \<noteq> [] \<and> at s (j + 1) = 42 \<and> 48 < at s (j + 2) \<and>
    at s (j + 2) \<le> 57 \<and> fst (strtol s (j + 2)) = n \<and> n < 2 ^ 31"
  then show "0 < n" using strtol_pos [of s "j + 2"] by simp
  let ?ds = "map (\<lambda>k. cs ! (rnd (drawn x + k) mod length cs)) [0..<n]"
  have "randchar rnd s i x =
          Inr (int (snd (strtol s (j + 2))) - int i - 1,
               x\<lparr>out := out x @ ?ds, drawn := drawn x + n\<rparr>)"
    using h randchar_class_suffix [of s i cs j rnd x] by simp
  moreover have "length ?ds = n" by simp
  moreover have "set ?ds \<subseteq> set cs" using h by auto
  ultimately show "\<exists>ds. randchar rnd s i x =
               Inr (int (snd (strtol s (j + 2))) - int i - 1,
                    x\<lparr>out := out x @ ds, drawn := drawn x + n\<rparr>) \<and>
             length ds = n \<and> set ds \<subseteq> set cs" by blast
next
  assume h: "class_at s i = Inr (cs, j) \<and> cs \<noteq> [] \<and>
    \<not> (at s (j + 1) = 42 \<and> 48 < at s (j + 2) \<and> at s (j + 2) \<le> 57)"
  then have "randchar rnd s i x =
     Inr (int j - int i,
          x\<lparr>out := out x @ [cs ! (rnd (drawn x) mod length cs)], drawn := drawn x + 1\<rparr>)"
    by (intro randchar_class_plain) simp_all
  moreover have "cs ! (rnd (drawn x) mod length cs) \<in> set cs" using h by simp
  ultimately show "\<exists>c. c \<in> set cs \<and>
            randchar rnd s i x =
              Inr (int j - int i, x\<lparr>out := out x @ [c], drawn := drawn x + 1\<rparr>)" by blast
next
  show "check ''[a]*5'' = Inr 1" by (simp add: check_def check_loop.simps at_def)
  show "generate (Suc (Suc fuel)) rnd ''[a]*5'' 0 x =
     Some (Inr (5, x\<lparr>out := out x @ [97, 97, 97, 97, 97], drawn := drawn x + 5\<rparr>))"
    by (rule generate_a5)
qed

theorem class_repetition_count_witness:
  "class_at ''[xyz]*12'' 1 = Inr ([120, 121, 122], 4) \<and> fst (strtol ''[xyz]*12'' 6) = 12 \<and>
   (\<exists>ds. randchar (\<lambda>k. k) ''[xyz]*12'' 1 \<lparr>out = [], drawn = 0\<rparr> =
            Inr (6, \<lparr>out = ds, drawn = 12\<rparr>) \<and> length ds = 12 \<and> set ds \<subseteq> {120, 121, 122}) \<and>
   (\<exists>c. c \<in> {120, 121, 122} \<and>
      randchar (\<lambda>k. k) ''[xyz]'' 1 \<lparr>out = [], drawn = 0\<rparr> = Inr (3, \<lparr>out = [c], drawn = 1\<rparr>))"
  using class_repetition_count [of "''[xyz]*12''" 1 "[120, 121, 122]" 4 12 "\<lambda>k. k"
      "\<lparr>out = [], drawn = 0\<rparr>" 0]
    class_repetition_count [of "''[xyz]''" 1 "[120, 121, 122]" 4 0 "\<lambda>k. k"
      "\<lparr>out = [], drawn = 0\<rparr>" 0]
  by (simp add: class_at_xyz12 class_at_xyz at_def strtol_def digit_run_def)

text \<open>
  C6 as stated fails beyond the range of \<^verbatim>\<open>int\<close>: the count \<^verbatim>\<open>4294967296\<close> becomes 0 when
  the \<^verbatim>\<open>long\<close> that \<^verbatim>\<open>strtol\<close> returns is stored in the \<^verbatim>\<open>int c\<close>, and no byte is written.
\<close>

theorem class_repetition_overflow:
  "check ''[a]*4294967296'' = Inr 1 \<and>
   (\<forall>rnd x. randchar rnd ''[a]*4294967296'' 1 x = Inr (12, x)) \<and>
   (\<forall>rnd x fuel. generate (Suc (Suc fuel)) rnd ''[a]*4294967296'' 0 x = Some (Inr (14, x)))"
  by (simp add: check_def check_loop.simps run_simps)

subsection \<open>Deduplication\<close>

text \<open>
  C8 (the working set of a class has no duplicates; \<^verbatim>\<open>[aab]\<close> and \<^verbatim>\<open>[ab]\<close> expand to the
  same set, with exactly two draw outcomes, each reached by some random source).
\<close>

theorem class_expansion_deduplicates:
  "(class_at s i = Inr (cs, j) \<longrightarrow> distinct cs) \<and>
   class_at ''[aab]'' 1 = Inr ([97, 98], 4) \<and> class_at ''[ab]'' 1 = Inr ([97, 98], 3) \<and>
   generate (Suc (Suc fuel)) rnd ''[aab]'' 0 x =
     Some (Inr (5, x\<lparr>out := out x @ [97 + rnd (drawn x) mod 2], drawn := drawn x + 1\<rparr>)) \<and>
   generate (Suc (Suc fuel)) rnd ''[ab]'' 0 x =
     Some (Inr (4, x\<lparr>out := out x @ [97 + rnd (drawn x) mod 2], drawn := drawn x + 1\<rparr>)) \<and>
   (\<forall>c\<in>{97, 98}. \<exists>rnd'.
      generate (Suc (Suc fuel)) rnd' ''[aab]'' 0 x =
        Some (Inr (5, x\<lparr>out := out x @ [c], drawn := drawn x + 1\<rparr>)) \<and>
      generate (Suc (Suc fuel)) rnd' ''[ab]'' 0 x =
        Some (Inr (4, x\<lparr>out := out x @ [c], drawn := drawn x + 1\<rparr>)))"
proof (intro conjI impI)
  assume "class_at s i = Inr (cs, j)"
  from class_at_scan [OF this] obtain chars where
    "take (length cs) chars = cs" "chars_ok chars (length cs)" by auto
  then show "distinct cs" by (simp add: chars_ok_def)
next
  show "class_at ''[aab]'' 1 = Inr ([97, 98], 4)" by (simp add: ca_aab)
  show "class_at ''[ab]'' 1 = Inr ([97, 98], 3)" by (simp add: ca_ab)
  show "generate (Suc (Suc fuel)) rnd ''[aab]'' 0 x =
     Some (Inr (5, x\<lparr>out := out x @ [97 + rnd (drawn x) mod 2], drawn := drawn x + 1\<rparr>))"
    by (rule generate_aab)
  show "generate (Suc (Suc fuel)) rnd ''[ab]'' 0 x =
     Some (Inr (4, x\<lparr>out := out x @ [97 + rnd (drawn x) mod 2], drawn := drawn x + 1\<rparr>))"
    by (rule generate_ab)
  have r: "\<exists>rnd'.
      generate (Suc (Suc fuel)) rnd' ''[aab]'' 0 x =
        Some (Inr (5, x\<lparr>out := out x @ [97 + k], drawn := drawn x + 1\<rparr>)) \<and>
      generate (Suc (Suc fuel)) rnd' ''[ab]'' 0 x =
        Some (Inr (4, x\<lparr>out := out x @ [97 + k], drawn := drawn x + 1\<rparr>))" if "k < 2" for k
    using that generate_aab [of fuel "\<lambda>_. k" x] generate_ab [of fuel "\<lambda>_. k" x]
    by (intro exI [of _ "\<lambda>_. k"]) simp
  show "\<forall>c\<in>{97, 98}. \<exists>rnd'.
      generate (Suc (Suc fuel)) rnd' ''[aab]'' 0 x =
        Some (Inr (5, x\<lparr>out := out x @ [c], drawn := drawn x + 1\<rparr>)) \<and>
      generate (Suc (Suc fuel)) rnd' ''[ab]'' 0 x =
        Some (Inr (4, x\<lparr>out := out x @ [c], drawn := drawn x + 1\<rparr>))"
    using r [of 0] r [of 1] by simp
qed

theorem class_expansion_deduplicates_witness:
  "class_at ''[hello]'' 1 = Inr ([104, 101, 108, 111], 6) \<and> distinct [104, 101, 108, 111 :: nat] \<and>
   (\<exists>rnd'. generate 2 rnd' ''[aab]'' 0 \<lparr>out = [], drawn = 0\<rparr> =
      Some (Inr (5, \<lparr>out = [98], drawn = 1\<rparr>)))"
  using class_expansion_deduplicates [of "''[hello]''" 1 "[104, 101, 108, 111]" 6 0 "\<lambda>k. k"
      "\<lparr>out = [], drawn = 0\<rparr>"]
  by (simp add: class_at_hello numeral_2_eq_2) blast

subsection \<open>Escapes\<close>

text \<open>
  C7 (a backslash disables the structural meaning of the next character in the validator
  and in the interpreter; \<^verbatim>\<open>\[a\]\<close> is accepted and generates the three bytes \<^verbatim>\<open>[a]\<close>
  with no random draw). The example holds, the general sentence does not: the look-behind
  \<^verbatim>\<open>ipt[-2] != '\\'\<close> of \<open>check\<close> takes a backslash that is itself escaped for an escape of
  the bracket that follows it. So \<^verbatim>\<open>\\[]\<close> and \<^verbatim>\<open>\\[-a]\<close> are accepted although \<^verbatim>\<open>a[]\<close> and
  \<^verbatim>\<open>a[-a]\<close> are rejected; \<open>generate\<close> writes the backslash and then divides by
  \<^verbatim>\<open>len = 0\<close> on the first, and draws from the codes 92..97 on the second.
\<close>

theorem check_escaped_backslash_still_escapes:
  "check [CHR 0x5C, CHR 0x5C, CHR ''['', CHR '']''] = Inr 1 \<and>
   check ''a[]'' = Inr 0 \<and>
   generate (Suc (Suc fuel)) rnd [CHR 0x5C, CHR 0x5C, CHR ''['', CHR '']''] 0 x =
     Some (Inl DivByZero) \<and>
   check [CHR 0x5C, CHR 0x5C, CHR ''['', CHR ''-'', CHR ''a'', CHR '']''] = Inr 1 \<and>
   check ''a[-a]'' = Inr 0 \<and>
   class_at [CHR 0x5C, CHR 0x5C, CHR ''['', CHR ''-'', CHR ''a'', CHR '']''] 3 =
     Inr ([92, 93, 94, 95, 96, 97], 5) \<and>
   check [CHR 0x5C, CHR ''['', CHR ''a'', CHR 0x5C, CHR '']''] = Inr 1 \<and>
   generate (Suc (Suc (Suc (Suc fuel)))) rnd [CHR 0x5C, CHR ''['', CHR ''a'', CHR 0x5C, CHR '']''] 0 x =
     Some (Inr (5, x\<lparr>out := out x @ [91, 97, 93]\<rparr>))"
proof (intro conjI)
  show "check [CHR 0x5C, CHR 0x5C, CHR ''['', CHR '']''] = Inr 1"
    by (simp add: check_def check_loop.simps at_def)
  show "check ''a[]'' = Inr 0"
    by (simp add: check_def check_loop.simps at_def)
  show "generate (Suc (Suc fuel)) rnd [CHR 0x5C, CHR 0x5C, CHR ''['', CHR '']''] 0 x =
     Some (Inl DivByZero)"
    by (simp add: generate_def at_def randchar_def scan_class.simps draw_def putchar_def)
  show "check [CHR 0x5C, CHR 0x5C, CHR ''['', CHR ''-'', CHR ''a'', CHR '']''] = Inr 1"
    by (simp add: check_def check_loop.simps at_def)
  show "check ''a[-a]'' = Inr 0"
    by (simp add: check_def check_loop.simps at_def)
  show "class_at [CHR 0x5C, CHR 0x5C, CHR ''['', CHR ''-'', CHR ''a'', CHR '']''] 3 =
     Inr ([92, 93, 94, 95, 96, 97], 5)"
    by (rule class_at_bracket_start)
  show "check [CHR 0x5C, CHR ''['', CHR ''a'', CHR 0x5C, CHR '']''] = Inr 1"
    by (simp add: check_def check_loop.simps at_def)
  show "generate (Suc (Suc (Suc (Suc fuel)))) rnd [CHR 0x5C, CHR ''['', CHR ''a'', CHR 0x5C, CHR '']''] 0 x =
     Some (Inr (5, x\<lparr>out := out x @ [91, 97, 93]\<rparr>))"
    by (simp add: generate_def at_def putchar_def)
qed

subsection \<open>The repetition count of a group\<close>

text \<open>
  C2, amended (a group followed by \<^verbatim>\<open>*N\<close> with \<open>N\<close> below \<open>2 ^ 31\<close> has its whole body
  executed exactly \<open>N\<close> times before \<open>generate\<close> returns the offset of the byte after the
  suffix; \<^verbatim>\<open>([A-Za-z][0-9])*3\<close> always yields 6 bytes, letters at positions 0, 2, 4 and
  digits at 1, 3, 5). The body is any stretch of pattern whose single pass, from its first
  index \<open>origin\<close> to the closing parenthesis at \<open>j\<close>, changes the state by \<open>body\<close>; the
  call then returns in state \<open>body ^^ N\<close>, so every class in it is sampled again each time.
\<close>

theorem group_repetition:
  "(at s j = 41 \<and> at s (j + 1) = 42 \<and> 48 < at s (j + 2) \<and> at s (j + 2) \<le> 57 \<and>
    fst (strtol s (j + 2)) = n \<and> n < 2 ^ 31 \<and>
    (\<forall>t time ipt_exit y r. returns rnd s origin j t time ipt_exit (body y) r \<longrightarrow>
                            returns rnd s origin origin t time ipt_exit y r) \<longrightarrow>
      returns rnd s origin origin 0 0 None x
        (Inr (int (snd (strtol s (j + 2))) - int origin - 1, (body ^^ n) x))) \<and>
   check ''([A-Za-z][0-9])*3'' = Inr 1 \<and>
   (10 \<le> fuel \<longrightarrow>
      generate fuel rnd ''([A-Za-z][0-9])*3'' 0 x = Some (Inr (17, (letter_digit rnd ^^ 3) x)) \<and>
      (\<exists>c0 c1 c2 c3 c4 c5.
         generate fuel rnd ''([A-Za-z][0-9])*3'' 0 x =
           Some (Inr (17, x\<lparr>out := out x @ [c0, c1, c2, c3, c4, c5], drawn := drawn x + 6\<rparr>)) \<and>
         (65 \<le> c0 \<and> c0 \<le> 90 \<or> 97 \<le> c0 \<and> c0 \<le> 122) \<and> 48 \<le> c1 \<and> c1 \<le> 57 \<and>
         (65 \<le> c2 \<and> c2 \<le> 90 \<or> 97 \<le> c2 \<and> c2 \<le> 122) \<and> 48 \<le> c3 \<and> c3 \<le> 57 \<and>
         (65 \<le> c4 \<and> c4 \<le> 90 \<or> 97 \<le> c4 \<and> c4 \<le> 122) \<and> 48 \<le> c5 \<and> c5 \<le> 57))"
proof (intro conjI impI)
  assume h: "at s j = 41 \<and> at s (j + 1) = 42 \<and> 48 < at s (j + 2) \<and> at s (j + 2) \<le> 57 \<and>
    fst (strtol s (j + 2)) = n \<and> n < 2 ^ 31 \<and>
    (\<forall>t time ipt_exit y r. returns rnd s origin j t time ipt_exit (body y) r \<longrightarrow>
                            returns rnd s origin origin t time ipt_exit y r)"
  then show "returns rnd s origin origin 0 0 None x
        (Inr (int (snd (strtol s (j + 2))) - int origin - 1, (body ^^ n) x))"
    by (intro group_repeats) blast+
next
  show "check ''([A-Za-z][0-9])*3'' = Inr 1"
    by (simp add: check_def check_loop.simps at_def)
next
  assume "10 \<le> fuel"
  then have "fuel = Suc (Suc (Suc (Suc (Suc (Suc (Suc (Suc (Suc (Suc (fuel - 10))))))))))"
    by simp
  then have g: "generate fuel rnd ''([A-Za-z][0-9])*3'' 0 x =
      Some (Inr (17, letter_digit rnd (letter_digit rnd (letter_digit rnd x))))"
    using generate_group [of "fuel - 10" rnd x] by simp
  then show "generate fuel rnd ''([A-Za-z][0-9])*3'' 0 x = Some (Inr (17, (letter_digit rnd ^^ 3) x))"
    by (simp add: eval_nat_numeral)
  from letter_digit_thrice [of rnd x] obtain c0 c1 c2 c3 c4 c5 where
    e: "letter_digit rnd (letter_digit rnd (letter_digit rnd x)) =
       x\<lparr>out := out x @ [c0, c1, c2, c3, c4, c5], drawn := drawn x + 6\<rparr>"
    and p: "65 \<le> c0 \<and> c0 \<le> 90 \<or> 97 \<le> c0 \<and> c0 \<le> 122" "48 \<le> c1" "c1 \<le> 57"
      "65 \<le> c2 \<and> c2 \<le> 90 \<or> 97 \<le> c2 \<and> c2 \<le> 122" "48 \<le> c3" "c3 \<le> 57"
      "65 \<le> c4 \<and> c4 \<le> 90 \<or> 97 \<le> c4 \<and> c4 \<le> 122" "48 \<le> c5" "c5 \<le> 57"
    by blast
  have g': "generate fuel rnd ''([A-Za-z][0-9])*3'' 0 x =
           Some (Inr (17, x\<lparr>out := out x @ [c0, c1, c2, c3, c4, c5], drawn := drawn x + 6\<rparr>))"
    using g e by (simp only:)
  from g' p
  show "\<exists>c0 c1 c2 c3 c4 c5.
         generate fuel rnd ''([A-Za-z][0-9])*3'' 0 x =
           Some (Inr (17, x\<lparr>out := out x @ [c0, c1, c2, c3, c4, c5], drawn := drawn x + 6\<rparr>)) \<and>
         (65 \<le> c0 \<and> c0 \<le> 90 \<or> 97 \<le> c0 \<and> c0 \<le> 122) \<and> 48 \<le> c1 \<and> c1 \<le> 57 \<and>
         (65 \<le> c2 \<and> c2 \<le> 90 \<or> 97 \<le> c2 \<and> c2 \<le> 122) \<and> 48 \<le> c3 \<and> c3 \<le> 57 \<and>
         (65 \<le> c4 \<and> c4 \<le> 90 \<or> 97 \<le> c4 \<and> c4 \<le> 122) \<and> 48 \<le> c5 \<and> c5 \<le> 57"
    by blast
qed

theorem group_repetition_witness:
  "at ''([A-Za-z][0-9])*3'' 14 = 41 \<and> strtol ''([A-Za-z][0-9])*3'' 16 = (3, 17) \<and>
   returns (\<lambda>k. k) ''([A-Za-z][0-9])*3'' 1 1 0 0 None \<lparr>out = [], drawn = 0\<rparr>
     (Inr (15, \<lparr>out = [65, 49, 67, 51, 69, 53], drawn = 6\<rparr>)) \<and>
   generate 10 (\<lambda>k. k) ''([A-Za-z][0-9])*3'' 0 \<lparr>out = [], drawn = 0\<rparr> =
     Some (Inr (17, \<lparr>out = [65, 49, 67, 51, 69, 53], drawn = 6\<rparr>))"
proof -
  have pass: "\<forall>t time ipt_exit y r.
      returns (\<lambda>k. k) ''([A-Za-z][0-9])*3'' 1 14 t time ipt_exit (letter_digit (\<lambda>k. k) y) r \<longrightarrow>
      returns (\<lambda>k. k) ''([A-Za-z][0-9])*3'' 1 1 t time ipt_exit y r"
  proof (intro allI impI)
    fix t time ipt_exit y r
    assume "returns (\<lambda>k. k) ''([A-Za-z][0-9])*3'' 1 14 t time ipt_exit (letter_digit (\<lambda>k. k) y) r"
    then obtain f where
      "gen_loop f (\<lambda>k. k) ''([A-Za-z][0-9])*3'' (Suc 0) 14 t time ipt_exit (letter_digit (\<lambda>k. k) y) = Some r"
      unfolding returns_def One_nat_def by (elim exE)
    then have "gen_loop (Suc (Suc f)) (\<lambda>k. k) ''([A-Za-z][0-9])*3'' (Suc 0) (Suc 0) t time ipt_exit y = Some r"
      by (simp only: group_body_pass)
    then show "returns (\<lambda>k. k) ''([A-Za-z][0-9])*3'' 1 1 t time ipt_exit y r"
      unfolding returns_def One_nat_def by (rule exI [of _ "Suc (Suc f)"])
  qed
  let ?p = "''([A-Za-z][0-9])*3''"
  let ?x = "\<lparr>out = [], drawn = 0\<rparr>"
  note th = group_repetition [of ?p 14 3 "\<lambda>k. k" 1 "letter_digit (\<lambda>k. k)" ?x 10]
  have a: "at ?p 14 = 41" "at ?p (14 + 1) = 42" "48 < at ?p (14 + 2)" "at ?p (14 + 2) \<le> 57"
    by (simp_all add: at_def)
  have s: "strtol ?p (14 + 2) = (3, 17)" using strtol_group by simp
  then have s1: "fst (strtol ?p (14 + 2)) = 3" by simp
  have b: "(3::nat) < 2 ^ 31" by simp
  have "returns (\<lambda>k. k) ?p 1 1 0 0 None ?x
     (Inr (int (snd (strtol ?p (14 + 2))) - int 1 - 1, (letter_digit (\<lambda>k. k) ^^ 3) ?x))"
    by (rule th [THEN conjunct1, THEN mp]) (intro conjI a s1 b pass)
  then have r: "returns (\<lambda>k. k) ?p 1 1 0 0 None ?x
     (Inr (15, \<lparr>out = [65, 49, 67, 51, 69, 53], drawn = 6\<rparr>))"
    by (simp only: s letter_digit_123 snd_conv) simp
  have "generate 10 (\<lambda>k. k) ?p 0 ?x = Some (Inr (17, (letter_digit (\<lambda>k. k) ^^ 3) ?x))"
    by (rule th [THEN conjunct2, THEN conjunct2, THEN mp, THEN conjunct1]) simp
  then have g: "generate 10 (\<lambda>k. k) ?p 0 ?x =
      Some (Inr (17, \<lparr>out = [65, 49, 67, 51, 69, 53], drawn = 6\<rparr>))"
    by (simp only: letter_digit_123)
  from a(1) strtol_group r g show ?thesis by (intro conjI)
qed

text \<open>
  C2 as stated fails beyond the range of \<^verbatim>\<open>int\<close>: for \<^verbatim>\<open>(a)*4294967296\<close> the count stored
  in \<^verbatim>\<open>time\<close> is 0, and the body is executed once.
\<close>

theorem group_repetition_overflow:
  "check ''(a)*4294967296'' = Inr 1 \<and>
   (\<forall>rnd x fuel. generate (Suc (Suc (Suc fuel))) rnd ''(a)*4294967296'' 0 x =
      Some (Inr (14, x\<lparr>out := out x @ [97]\<rparr>)))"
  by (simp add: check_def check_loop.simps run_simps)

subsection \<open>Exit status\<close>

text \<open>
  C9 (the outcomes of \<open>main\<close>: no \<^verbatim>\<open>-p\<close> option gives the status -1, a pattern rejected by
  \<open>check\<close> gives -2, both with only the message written and no generation; a run that
  generates returns 0; the three are distinct, also as exit codes modulo 256). When
  \<^verbatim>\<open>/dev/urandom\<close> cannot be opened, \<^verbatim>\<open>init_random\<close> exits with 1 before any generation.
\<close>

theorem main_exit_status:
  "((\<forall>a. OptP a \<notin> set opts) \<longrightarrow>
      main fuel rnd urandom opts x =
        Some (Inr (- 1, printf (''Need password definition.'' @ [CHR 0x0A]) x))) \<and>
   ((\<forall>a. OptP a \<notin> set later) \<and> check p = Inr 0 \<longrightarrow>
      main fuel rnd urandom (earlier @ OptP p # later) x =
        Some (Inr (- 2, printf (''Password definition error.'' @ [CHR 0x0A]) x))) \<and>
   ((\<forall>a. OptP a \<notin> set later) \<and> check p = Inr v \<and> v \<noteq> 0 \<and>
    main fuel rnd True (earlier @ OptP p # later) x = Some (Inr (status, x')) \<longrightarrow>
      status = 0) \<and>
   ((\<forall>a. OptP a \<notin> set later) \<and> check p = Inr v \<and> v \<noteq> 0 \<longrightarrow>
      main fuel rnd False (earlier @ OptP p # later) x = Some (Inr (1, x))) \<and>
   main (Suc (Suc (Suc (Suc fuel)))) rnd True [OptP ''abc'', OptT 3] x =
     Some (Inr (0, x\<lparr>out := out x @ [97, 98, 99, 10, 97, 98, 99, 10, 97, 98, 99, 10]\<rparr>)) \<and>
   (- 1 :: int) mod 256 \<noteq> (- 2) mod 256 \<and> (- 1 :: int) mod 256 \<noteq> 0 \<and> (- 2 :: int) mod 256 \<noteq> 0"
proof (intro conjI impI)
  assume "\<forall>a. OptP a \<notin> set opts"
  from fold_no_p [OF this, of 0 0 None]
  show "main fuel rnd urandom opts x =
        Some (Inr (- 1, printf (''Need password definition.'' @ [CHR 0x0A]) x))"
    by (auto simp add: main_def)
next
  assume "(\<forall>a. OptP a \<notin> set later) \<and> check p = Inr 0"
  with fold_last_p [of later earlier p]
  show "main fuel rnd urandom (earlier @ OptP p # later) x =
        Some (Inr (- 2, printf (''Password definition error.'' @ [CHR 0x0A]) x))"
    by (auto simp add: main_def)
next
  assume h: "(\<forall>a. OptP a \<notin> set later) \<and> check p = Inr v \<and> v \<noteq> 0 \<and>
    main fuel rnd True (earlier @ OptP p # later) x = Some (Inr (status, x'))"
  with fold_last_p [of later earlier p] obtain f' t' where
    f: "foldl opt_step (0, 0, None) (earlier @ OptP p # later) = (f', t', Some p)" "and f' 1 = 1"
    by auto
  from h f show "status = 0"
    by (auto simp add: main_def split: if_splits dest: main_loop_status
        simp del: main_loop.simps)
next
  assume h: "(\<forall>a. OptP a \<notin> set later) \<and> check p = Inr v \<and> v \<noteq> 0"
  with fold_last_p [of later earlier p]
  show "main fuel rnd False (earlier @ OptP p # later) x = Some (Inr (1, x))"
    by (auto simp add: main_def)
next
  show "main (Suc (Suc (Suc (Suc fuel)))) rnd True [OptP ''abc'', OptT 3] x =
     Some (Inr (0, x\<lparr>out := out x @ [97, 98, 99, 10, 97, 98, 99, 10, 97, 98, 99, 10]\<rparr>))"
    by (rule main_abc)
qed simp_all

theorem main_exit_status_witness:
  "(\<forall>a. OptP a \<notin> set [OptT 3, OptOther]) \<and>
   main 5 (\<lambda>k. k) True [OptT 3, OptOther] \<lparr>out = [], drawn = 0\<rparr> =
     Some (Inr (- 1, \<lparr>out = map of_char ''Need password definition.'' @ [10], drawn = 0\<rparr>)) \<and>
   check ''a[b'' = Inr 0 \<and>
   main 5 (\<lambda>k. k) True [OptT 3, OptP ''a[b'', OptOther] \<lparr>out = [], drawn = 0\<rparr> =
     Some (Inr (- 2, \<lparr>out = map of_char ''Password definition error.'' @ [10], drawn = 0\<rparr>)) \<and>
   check ''abc'' = Inr 1 \<and>
   main 5 (\<lambda>k. k) True [OptP ''abc''] \<lparr>out = [], drawn = 0\<rparr> =
     Some (Inr (0, \<lparr>out = [97, 98, 99, 10], drawn = 0\<rparr>)) \<and>
   main 5 (\<lambda>k. k) False [OptP ''abc''] \<lparr>out = [], drawn = 0\<rparr> =
     Some (Inr (1, \<lparr>out = [], drawn = 0\<rparr>))"
proof -
  have c: "check ''a[b'' = Inr 0" "check ''abc'' = Inr 1"
    by (simp_all add: check_def check_loop.simps at_def)
  have m: "main 5 (\<lambda>k. k) True [OptP ''abc''] \<lparr>out = [], drawn = 0\<rparr> =
     Some (Inr (0, \<lparr>out = [97, 98, 99, 10], drawn = 0\<rparr>))"
    by (simp add: main_def c generate_def at_def putchar_def eval_nat_numeral)
  show ?thesis
    using main_exit_status [of "[OptT 3, OptOther]" 5 "\<lambda>k. k" True "\<lparr>out = [], drawn = 0\<rparr>"
        "[OptOther]" "''a[b''" "[OptT 3]" 0 0 "\<lparr>out = [], drawn = 0\<rparr>"]
      main_exit_status [of "[]" 5 "\<lambda>k. k" True "\<lparr>out = [], drawn = 0\<rparr>"
        "[]" "''abc''" "[]" 1 0 "\<lparr>out = [97, 98, 99, 10], drawn = 0\<rparr>"] c m
    by (simp add: printf_def)
qed

subsection \<open>The two validators\<close>

text \<open>
  C10, amended (the validators of \<^verbatim>\<open>src/pwdgen.c\<close> and \<^verbatim>\<open>src/unnamed/part_000\<close> return the
  same verdict on every pattern without a backslash, except on a pattern beginning with
  \<^verbatim>\<open>[-\<close> that \<^verbatim>\<open>part_000\<close> accepts, and on a pattern accepted by \<^verbatim>\<open>pwdgen.c\<close> that has an
  empty class after its first byte or a \<^verbatim>\<open>-\<close> outside every class that is the first byte or
  has a right neighbour of smaller code than the left one; in particular the verdicts are
  the same on every pattern with none of these shapes). By \<open>excluded_patterns_differ\<close> the
  verdicts do differ on every pattern that the exceptions leave out.
\<close>

theorem check_variants_agree:
  "no_backslash s \<longrightarrow>
     (\<not> (class_dash_first s \<and> check s = Inr 1) \<and>
      \<not> ((empty_class_inside s \<or> dash_outside_unordered s) \<and> check_pwdgen s = Inr 1) \<longrightarrow>
        (check_pwdgen s = Inr 1 \<longleftrightarrow> check s = Inr 1)) \<and>
     (\<not> class_dash_first s \<and> \<not> empty_class_inside s \<and> \<not> dash_outside_unordered s \<longrightarrow>
        (check_pwdgen s = Inr 1 \<longleftrightarrow> check s = Inr 1))"
proof (intro impI)
  assume "no_backslash s"
  then have nb: "\<forall>i. at s i \<noteq> 92" by (simp add: no_backslash_at)
  have a: "check_pwdgen s = Inr 1" if "\<not> class_dash_first s" "check s = Inr 1"
    using check_accepted_pwdgen [OF nb, of 0 0 0] that
    by (simp add: class_dash_first_def check_def check_pwdgen_def)
  have b: "check s = Inr 1"
    if "\<not> empty_class_inside s" "\<not> dash_outside_unordered s" "check_pwdgen s = Inr 1"
  proof -
    have "\<forall>i. 0 < i \<longrightarrow> \<not> (at s i = 91 \<and> at s (i + 1) = 93)"
      using no_empty_class_inside_at [OF that(1)] by blast
    moreover have "\<forall>i. at s i = 45 \<and> \<not> in_class s i \<longrightarrow> 0 < i \<and> at s (i - 1) \<le> at s (i + 1)"
      using no_dash_outside_unordered_at [OF that(2)] by blast
    ultimately show ?thesis
      using pwdgen_accepted_check [OF nb, of 0 0 0] that(3)
      by (simp add: check_def check_pwdgen_def)
  qed
  from a b show
    "(\<not> (class_dash_first s \<and> check s = Inr 1) \<and>
      \<not> ((empty_class_inside s \<or> dash_outside_unordered s) \<and> check_pwdgen s = Inr 1) \<longrightarrow>
        (check_pwdgen s = Inr 1 \<longleftrightarrow> check s = Inr 1)) \<and>
     (\<not> class_dash_first s \<and> \<not> empty_class_inside s \<and> \<not> dash_outside_unordered s \<longrightarrow>
        (check_pwdgen s = Inr 1 \<longleftrightarrow> check s = Inr 1))"
    by blast
qed

theorem check_variants_agree_witness:
  "no_backslash ''[a-c]x-y'' \<and> \<not> class_dash_first ''[a-c]x-y'' \<and>
   \<not> empty_class_inside ''[a-c]x-y'' \<and> \<not> dash_outside_unordered ''[a-c]x-y'' \<and>
   check ''[a-c]x-y'' = Inr 1 \<and> check_pwdgen ''[a-c]x-y'' = Inr 1 \<and>
   no_backslash ''[-A]'' \<and> class_dash_first ''[-A]'' \<and> check ''[-A]'' = Inr 0 \<and>
   \<not> empty_class_inside ''[-A]'' \<and> \<not> dash_outside_unordered ''[-A]'' \<and>
   check_pwdgen ''[-A]'' \<noteq> Inr 1"
proof -
  have d: "no_backslash ''[a-c]x-y''" "\<not> class_dash_first ''[a-c]x-y''"
    by (simp_all add: no_backslash_def class_dash_first_def at_def)
  have e: "\<not> empty_class_inside ''[a-c]x-y''"
    unfolding empty_class_inside_def atLeastLessThan_upt by (simp add: at_def upt_rec_numeral)
  have f: "\<not> dash_outside_unordered ''[a-c]x-y''"
    unfolding dash_outside_unordered_def atLeastLessThan_upt
    by (simp add: at_def upt_rec_numeral)
  have c: "check ''[a-c]x-y'' = Inr 1" by (simp add: check_def check_loop.simps at_def)
  from check_variants_agree [of "''[a-c]x-y''"] d e f c
  have p: "check_pwdgen ''[a-c]x-y'' = Inr 1" by blast
  have d': "no_backslash ''[-A]''" "class_dash_first ''[-A]''"
    by (simp_all add: no_backslash_def class_dash_first_def at_def)
  have e': "\<not> empty_class_inside ''[-A]''"
    unfolding empty_class_inside_def atLeastLessThan_upt by (simp add: at_def upt_rec_numeral)
  have f': "\<not> dash_outside_unordered ''[-A]''"
    unfolding dash_outside_unordered_def atLeastLessThan_upt
    by (simp add: at_def upt_rec_numeral)
  have c': "check ''[-A]'' = Inr 0" by (simp add: check_def check_loop.simps at_def)
  then have n: "check ''[-A]'' \<noteq> Inr 1" by simp
  from check_variants_agree [of "''[-A]''"] d' e' f' n
  have p': "check_pwdgen ''[-A]'' \<noteq> Inr 1" by blast
  from d e f c p d' c' e' f' p' show ?thesis by (intro conjI)
qed

text \<open>
  C10 as stated fails: only \<^verbatim>\<open>src/unnamed/part_000\<close> knows escapes, so it accepts \<^verbatim>\<open>\[\<close>,
  which \<^verbatim>\<open>src/pwdgen.c\<close> rejects as an unclosed class; and only \<^verbatim>\<open>src/unnamed/part_000\<close>
  tests for an empty class, so it rejects \<^verbatim>\<open>a[]\<close>, which \<^verbatim>\<open>src/pwdgen.c\<close> accepts.
\<close>

theorem check_variants_differ:
  "check [CHR 0x5C, CHR ''[''] = Inr 1 \<and> check_pwdgen [CHR 0x5C, CHR ''[''] = Inr 0 \<and>
   check ''a[]'' = Inr 0 \<and> check_pwdgen ''a[]'' = Inr 1"
  by (simp add: check_def check_loop.simps check_pwdgen_def check_loop_pwdgen.simps at_def)

end
